theory Spec2Isabelle
  imports Complex_Main "HOL-Library.Word"
begin

text \<open>
  A model of the hooks of the piano companion: the MIDI hook that scores presses against the
  expected notes, the score hook that turns a MusicXML document into timed notes and
  measures and answers queries about them, and the metronome hook. Each hook is a record of
  its state variables with one function per operation; clock readings and the fetched
  document are parameters.
\<close>

section \<open>JavaScript numbers\<close>

text \<open>
  The hooks compute with JavaScript numbers, which are IEEE binary64 values. A number is
  modelled as a finite value, one of the two infinities, or NaN. The result of an addition, a
  multiplication or a division of finite values is the exact result rounded to the nearest
  double, a tie going to the even significand; a result of magnitude \<open>2^1024\<close> or more is an
  infinity, and below \<open>2^-1022\<close> the doubles are the multiples of \<open>2^-1074\<close>. The sign of
  zero is not modelled: a zero divisor is taken as \<open>+0\<close>. Comparisons with NaN are false, as
  in JavaScript.
\<close>

datatype jsnum = Fin real | PInf | NInf | NaN

definition p2 :: "int \<Rightarrow> real" where
  "p2 k = 2 powi k"

text \<open>
  The binary exponent of a positive number in the normal range: for \<open>2^-1022 \<le> x < 2^1024\<close>
  the search stops at the \<open>k\<close> with \<open>2^k \<le> x < 2^(k+1)\<close>.
\<close>

fun ilog2_from :: "nat \<Rightarrow> int \<Rightarrow> real \<Rightarrow> int" where
  "ilog2_from 0 k x = k"
| "ilog2_from (Suc fuel) k x = (if x < p2 (k + 1) then k else ilog2_from fuel (k + 1) x)"

definition ilog2 :: "real \<Rightarrow> int" where
  "ilog2 x = ilog2_from 2046 (- 1022) x"

text \<open>The exponent of the spacing of the doubles around \<open>x\<close>: 53 significant bits.\<close>

definition quantum :: "real \<Rightarrow> int" where
  "quantum x = (if \<bar>x\<bar> < p2 (- 1022) then - 1074 else ilog2 \<bar>x\<bar> - 52)"

text \<open>Rounding to the nearest integer, a tie going to the even one.\<close>

definition rhe :: "real \<Rightarrow> int" where
  "rhe m =
     (let f = \<lfloor>m\<rfloor>; d = m - of_int f
      in if d < 1 / 2 then f else if 1 / 2 < d then f + 1 else if even f then f else f + 1)"

text \<open>The nearest multiple of the spacing, before the test for overflow.\<close>

definition fl_val :: "real \<Rightarrow> real" where
  "fl_val x = of_int (rhe (x / p2 (quantum x))) * p2 (quantum x)"

text \<open>Rounding of an exact result to a double.\<close>

definition fl :: "real \<Rightarrow> jsnum" where
  "fl x =
     (if p2 1024 \<le> \<bar>x\<bar> \<or> p2 1024 \<le> \<bar>fl_val x\<bar> then (if 0 < x then PInf else NInf)
      else Fin (fl_val x))"

fun num_neg :: "jsnum \<Rightarrow> jsnum" where
  "num_neg (Fin a) = Fin (- a)"
| "num_neg PInf = NInf"
| "num_neg NInf = PInf"
| "num_neg NaN = NaN"

fun num_add :: "jsnum \<Rightarrow> jsnum \<Rightarrow> jsnum" where
  "num_add NaN y = NaN"
| "num_add x NaN = NaN"
| "num_add (Fin a) (Fin b) = fl (a + b)"
| "num_add PInf NInf = NaN"
| "num_add NInf PInf = NaN"
| "num_add PInf y = PInf"
| "num_add x PInf = PInf"
| "num_add NInf y = NInf"
| "num_add x NInf = NInf"

definition num_sub :: "jsnum \<Rightarrow> jsnum \<Rightarrow> jsnum" where
  "num_sub x y = num_add x (num_neg y)"

fun num_mul :: "jsnum \<Rightarrow> jsnum \<Rightarrow> jsnum" where
  "num_mul NaN y = NaN"
| "num_mul x NaN = NaN"
| "num_mul (Fin a) (Fin b) = fl (a * b)"
| "num_mul (Fin a) PInf = (if a = 0 then NaN else if 0 < a then PInf else NInf)"
| "num_mul (Fin a) NInf = (if a = 0 then NaN else if 0 < a then NInf else PInf)"
| "num_mul PInf (Fin b) = (if b = 0 then NaN else if 0 < b then PInf else NInf)"
| "num_mul NInf (Fin b) = (if b = 0 then NaN else if 0 < b then NInf else PInf)"
| "num_mul PInf PInf = PInf"
| "num_mul PInf NInf = NInf"
| "num_mul NInf PInf = NInf"
| "num_mul NInf NInf = PInf"

fun num_div :: "jsnum \<Rightarrow> jsnum \<Rightarrow> jsnum" where
  "num_div NaN y = NaN"
| "num_div x NaN = NaN"
| "num_div (Fin a) (Fin b) =
     (if b \<noteq> 0 then fl (a / b)
      else if a = 0 then NaN else if 0 < a then PInf else NInf)"
| "num_div (Fin a) y = Fin 0"
| "num_div PInf (Fin b) = (if 0 \<le> b then PInf else NInf)"
| "num_div NInf (Fin b) = (if 0 \<le> b then NInf else PInf)"
| "num_div x y = NaN"

fun num_abs :: "jsnum \<Rightarrow> jsnum" where
  "num_abs (Fin a) = Fin \<bar>a\<bar>"
| "num_abs PInf = PInf"
| "num_abs NInf = PInf"
| "num_abs NaN = NaN"

text \<open>
  \<open>Math.round\<close> rounds to the nearest integer, a half towards \<open>+\<infinity>\<close>; the result is a
  double whenever the argument is one, so no further rounding happens.
\<close>

fun num_round :: "jsnum \<Rightarrow> jsnum" where
  "num_round (Fin a) = Fin (of_int \<lfloor>a + 1 / 2\<rfloor>)"
| "num_round x = x"

fun num_lt :: "jsnum \<Rightarrow> jsnum \<Rightarrow> bool" where
  "num_lt (Fin a) (Fin b) = (a < b)"
| "num_lt (Fin a) PInf = True"
| "num_lt NInf (Fin b) = True"
| "num_lt NInf PInf = True"
| "num_lt x y = False"

fun num_le :: "jsnum \<Rightarrow> jsnum \<Rightarrow> bool" where
  "num_le (Fin a) (Fin b) = (a \<le> b)"
| "num_le (Fin a) PInf = True"
| "num_le NInf (Fin b) = True"
| "num_le NInf PInf = True"
| "num_le PInf PInf = True"
| "num_le NInf NInf = True"
| "num_le x y = False"

definition num_ge :: "jsnum \<Rightarrow> jsnum \<Rightarrow> bool" where
  "num_ge x y = num_le y x"

definition num_gt :: "jsnum \<Rightarrow> jsnum \<Rightarrow> bool" where
  "num_gt x y = num_lt y x"

text \<open>Strict equality \<open>===\<close> on numbers: NaN is not equal to itself.\<close>

definition strict_eq :: "jsnum \<Rightarrow> jsnum \<Rightarrow> bool" where
  "strict_eq x y = (x \<noteq> NaN \<and> x = y)"

text \<open>A number is falsy when it is zero or NaN.\<close>

definition truthy :: "jsnum \<Rightarrow> bool" where
  "truthy x = (x \<noteq> Fin 0 \<and> x \<noteq> NaN)"

text \<open>Strings are truthy when they are not empty.\<close>

definition str_or :: "string \<Rightarrow> string \<Rightarrow> string" where
  "str_or s d = (if s = [] then d else s)"

section \<open>Printing and parsing integers\<close>

definition digit_char :: "nat \<Rightarrow> char" where
  "digit_char d = ''0123456789'' ! d"

fun show_nat_aux :: "nat \<Rightarrow> string \<Rightarrow> string" where
  "show_nat_aux n acc =
     (if n < 10 then digit_char n # acc
      else show_nat_aux (n div 10) (digit_char (n mod 10) # acc))"

declare show_nat_aux.simps [simp del]

text \<open>Decimal rendering of a natural number.\<close>

definition show_nat :: "nat \<Rightarrow> string" where
  "show_nat n = show_nat_aux n []"

definition show_int :: "int \<Rightarrow> string" where
  "show_int i = (if i < 0 then CHR ''-'' # show_nat (nat (- i)) else show_nat (nat i))"

text \<open>
  \<open>parseInt(s, 10)\<close>: leading white space is dropped, an optional sign is read, then the
  longest run of decimal digits; with no digit the result is NaN, otherwise the double nearest
  to the integer read. Characters are bytes here, so of the white space of ECMAScript only the
  one-byte characters are recognised.
\<close>

definition is_space :: "char \<Rightarrow> bool" where
  "is_space c = (of_char c \<in> {9::nat, 10, 11, 12, 13, 32, 160})"

definition is_digit :: "char \<Rightarrow> bool" where
  "is_digit c = (48 \<le> (of_char c :: nat) \<and> (of_char c :: nat) \<le> 57)"

definition digit_val :: "char \<Rightarrow> nat" where
  "digit_val c = of_char c - 48"

definition digits_val :: "string \<Rightarrow> nat" where
  "digits_val ds = foldl (\<lambda>acc c. 10 * acc + digit_val c) 0 ds"

definition parseInt10 :: "string \<Rightarrow> jsnum" where
  "parseInt10 s =
     (let t = dropWhile is_space s;
          neg = (t \<noteq> [] \<and> hd t = CHR ''-'');
          u = (if t \<noteq> [] \<and> (hd t = CHR ''-'' \<or> hd t = CHR ''+'') then tl t else t);
          ds = takeWhile is_digit u
      in if ds = [] then NaN
         else if neg then num_neg (fl (real (digits_val ds))) else fl (real (digits_val ds)))"

text \<open>Template-literal rendering of a number that came from \<open>parseInt\<close>.\<close>

fun show_num :: "jsnum \<Rightarrow> string" where
  "show_num (Fin a) = show_int \<lfloor>a\<rfloor>"
| "show_num PInf = ''Infinity''"
| "show_num NInf = ''-Infinity''"
| "show_num NaN = ''NaN''"

section \<open>The MIDI hook (hooks/useMIDI.ts)\<close>

text \<open>
  An expected note is any object with the four fields below; the notes of the parsed score
  extend it with further fields.
\<close>

record timed_pitch =
  id' :: string
  pitch :: jsnum
  start :: jsnum
  end' :: jsnum

record MIDINote =
  note' :: "8 word"
  velocity :: "8 word"
  timestamp :: real

record MIDIAccuracy =
  noteId :: string
  expectedNote :: jsnum
  actualNote :: jsnum
  timingOffset :: jsnum
  isCorrect :: bool

record UseMIDIOptions =
  expectedNotes :: "timed_pitch list option"
  currentTime :: "jsnum option"

text \<open>The state variables of the hook. An input port is known by its id.\<close>

record midi_state =
  midiSupported :: bool
  midiAccess :: bool
  midiInputs :: "string list"
  selectedInput :: "string option"
  activeNotes :: "MIDINote list"
  accuracy :: "MIDIAccuracy list"
  errorMessage :: "string option"

definition initial_midi_state :: midi_state where
  "initial_midi_state =
     \<lparr>midiSupported = False, midiAccess = False, midiInputs = [], selectedInput = None,
      activeNotes = [], accuracy = [], errorMessage = None\<rparr>"

definition byte_num :: "8 word \<Rightarrow> jsnum" where
  "byte_num b = Fin (real (unat b))"

definition accuracyPercentage :: "MIDIAccuracy list \<Rightarrow> jsnum" where
  "accuracyPercentage acc =
     (if length acc > 0
      then num_round (num_mul (num_div (Fin (real (length (filter isCorrect acc))))
                                       (Fin (real (length acc)))) (Fin 100))
      else Fin 0)"

definition averageTimingOffset :: "MIDIAccuracy list \<Rightarrow> jsnum" where
  "averageTimingOffset acc =
     (if length acc > 0
      then num_round (num_div (foldl (\<lambda>sum a. num_add sum (num_abs (timingOffset a))) (Fin 0) acc)
                              (Fin (real (length acc))))
      else Fin 0)"

text \<open>The predicate handed to \<open>find\<close> over the expected notes.\<close>

definition matches :: "jsnum \<Rightarrow> 8 word \<Rightarrow> 'a timed_pitch_scheme \<Rightarrow> bool" where
  "matches t nt n =
     (num_lt (num_abs (num_sub (start n) t)) (Fin 1) \<and> strict_eq (pitch n) (byte_num nt))"

text \<open>
  The three leading bytes of the message data; a shorter message leaves the later ones
  undefined, and every comparison with undefined is false.
\<close>

fun byte_at :: "8 word list \<Rightarrow> nat \<Rightarrow> 8 word option" where
  "byte_at [] i = None"
| "byte_at (b # bs) 0 = Some b"
| "byte_at (b # bs) (Suc i) = byte_at bs i"

definition is_note_on :: "8 word list \<Rightarrow> bool" where
  "is_note_on d =
     (case (byte_at d 0, byte_at d 2) of
        (Some command, Some vel) \<Rightarrow> 144 \<le> command \<and> command \<le> 159 \<and> 0 < vel
      | _ \<Rightarrow> False)"

definition is_note_off :: "8 word list \<Rightarrow> bool" where
  "is_note_off d =
     (case byte_at d 0 of
        Some command \<Rightarrow>
          (128 \<le> command \<and> command \<le> 143) \<or>
          (144 \<le> command \<and> command \<le> 159 \<and> byte_at d 2 = Some 0)
      | None \<Rightarrow> False)"

text \<open>
  \<open>handleMIDIMessage\<close>. The two clock readings the handler takes are parameters:
  \<open>perf_now\<close> is \<open>performance.now()\<close> and \<open>date_now\<close> is \<open>Date.now()\<close>.
\<close>

definition handleMIDIMessage ::
  "UseMIDIOptions \<Rightarrow> real \<Rightarrow> nat \<Rightarrow> 8 word list \<Rightarrow> midi_state \<Rightarrow> midi_state" where
  "handleMIDIMessage options perf_now date_now d s =
     (if is_note_on d then
        (case (byte_at d 1, byte_at d 2) of
           (Some nt, Some vel) \<Rightarrow>
             (let s1 = s\<lparr>activeNotes :=
                          activeNotes s @ [\<lparr>note' = nt, velocity = vel, timestamp = perf_now\<rparr>]\<rparr>
              in case (expectedNotes options, currentTime options) of
                   (Some ens, Some t) \<Rightarrow>
                     (case find (matches t nt) ens of
                        Some expected \<Rightarrow>
                          s1\<lparr>accuracy := accuracy s1 @
                               [\<lparr>noteId = id' expected,
                                 expectedNote = pitch expected,
                                 actualNote = byte_num nt,
                                 timingOffset =
                                   num_round (num_mul (num_sub (Fin perf_now) (start expected))
                                                      (Fin 1000)),
                                 isCorrect = True\<rparr>]\<rparr>
                      | None \<Rightarrow>
                          s1\<lparr>accuracy := accuracy s1 @
                               [\<lparr>noteId = ''wrong-'' @ show_nat date_now,
                                 expectedNote = Fin (- 1),
                                 actualNote = byte_num nt,
                                 timingOffset = Fin 0,
                                 isCorrect = False\<rparr>]\<rparr>)
                 | _ \<Rightarrow> s1)
         | _ \<Rightarrow> s)
      else if is_note_off d then
        s\<lparr>activeNotes := filter (\<lambda>n. Some (note' n) \<noteq> byte_at d 1) (activeNotes s)\<rparr>
      else s)"

definition resetStats :: "midi_state \<Rightarrow> midi_state" where
  "resetStats s = s\<lparr>accuracy := []\<rparr>"

definition selectInput :: "string \<Rightarrow> midi_state \<Rightarrow> midi_state" where
  "selectInput inputId s =
     (case find (\<lambda>i. i = inputId) (midiInputs s) of
        Some i \<Rightarrow> s\<lparr>selectedInput := Some i\<rparr>
      | None \<Rightarrow> s)"

text \<open>The states the hook can be in: it starts empty and changes by the operations above.\<close>

inductive reachable :: "midi_state \<Rightarrow> bool" where
  r_init: "activeNotes s = [] \<Longrightarrow> accuracy s = [] \<Longrightarrow> reachable s"
| r_message: "reachable s \<Longrightarrow> reachable (handleMIDIMessage options perf_now date_now d s)"
| r_reset: "reachable s \<Longrightarrow> reachable (resetStats s)"
| r_select: "reachable s \<Longrightarrow> reachable (selectInput inputId s)"


section \<open>The score hook (hooks/useMusicXML.ts)\<close>

datatype hand = Left | Right | Both

record Note = timed_pitch +
  duration :: jsnum
  measure :: jsnum
  hand :: hand
  finger :: "jsnum option"

record MeasureTimestamp =
  mt_measure :: jsnum
  mt_start :: jsnum
  mt_end :: jsnum

record MusicData =
  notes' :: "Note list"
  measures :: "MeasureTimestamp list"
  title :: string
  composer :: string
  tempo :: jsnum

text \<open>
  The parsed document, as far as the hook reads it. Each field is the answer of one selector
  query: the text content of the first matching element, or the value of an attribute, and
  \<open>None\<close> when the element or the attribute is not there. Elements are listed in document
  order.
\<close>

record note_el =
  has_rest :: bool
  step_text :: "string option"
  octave_text :: "string option"
  alter_text :: "string option"
  duration_text :: "string option"
  fingering_text :: "string option"

record measure_el =
  number_attr :: "string option"
  divisions_text :: "string option"
  note_els :: "note_el list"

record xml_doc =
  work_title :: "string option"
  composer_text :: "string option"
  tempo_attr :: "string option"
  measure_els :: "measure_el list"

text \<open>\<open>x || d\<close> for a string that may be missing: the default replaces null and the empty string.\<close>

definition opt_or :: "string option \<Rightarrow> string \<Rightarrow> string" where
  "opt_or x d = (case x of None \<Rightarrow> d | Some s \<Rightarrow> str_or s d)"

text \<open>\<open>!x\<close> for a string that may be missing.\<close>

definition missing :: "string option \<Rightarrow> bool" where
  "missing x = (case x of None \<Rightarrow> True | Some s \<Rightarrow> s = [])"

definition pitchMap :: "string \<rightharpoonup> jsnum" where
  "pitchMap = [''C'' \<mapsto> Fin 0, ''D'' \<mapsto> Fin 2, ''E'' \<mapsto> Fin 4, ''F'' \<mapsto> Fin 5,
               ''G'' \<mapsto> Fin 7, ''A'' \<mapsto> Fin 9, ''B'' \<mapsto> Fin 11]"

text \<open>A step that is not a key of the table reads undefined, and undefined plus a number is NaN.\<close>

definition baseNote :: "string \<Rightarrow> string \<Rightarrow> jsnum" where
  "baseNote step octave =
     num_add (case pitchMap step of Some v \<Rightarrow> v | None \<Rightarrow> NaN)
             (num_mul (parseInt10 octave) (Fin 12))"

definition read_tempo :: "xml_doc \<Rightarrow> jsnum" where
  "read_tempo doc =
     (case tempo_attr doc of Some a \<Rightarrow> parseInt10 (str_or a ''74'') | None \<Rightarrow> Fin 74)"

definition read_divisions :: "measure_el \<Rightarrow> jsnum" where
  "read_divisions mel =
     (case divisions_text mel of Some d \<Rightarrow> parseInt10 (str_or d ''4'') | None \<Rightarrow> Fin 4)"

definition durationInSeconds :: "jsnum \<Rightarrow> jsnum \<Rightarrow> string \<Rightarrow> jsnum" where
  "durationInSeconds tmp divisions dt =
     (let durationInDivisions = parseInt10 dt;
          durationInQuarters = num_div durationInDivisions divisions
      in num_mul durationInQuarters (num_div (Fin 60) tmp))"

text \<open>
  The body of the loop over the note elements of a measure. \<open>None\<close> is an early return: the
  element adds no note and leaves the clock alone.
\<close>

definition parse_note ::
  "jsnum \<Rightarrow> jsnum \<Rightarrow> jsnum \<Rightarrow> nat \<Rightarrow> jsnum \<Rightarrow> note_el \<Rightarrow> Note option" where
  "parse_note tmp divisions measureNumber noteIndex now el =
     (if has_rest el then None
      else if missing (step_text el) \<or> missing (octave_text el) then None
      else
        let step = the (step_text el);
            octave = the (octave_text el);
            alterValue = (if missing (alter_text el) then Fin 0
                          else parseInt10 (the (alter_text el)));
            p = num_add (baseNote step octave) alterValue
        in if missing (duration_text el) then None
           else
             let secs = durationInSeconds tmp divisions (the (duration_text el));
                 fg = (if missing (fingering_text el) then None
                       else Some (parseInt10 (the (fingering_text el))));
                 h = (if num_lt p (Fin 60) then Left else Right)
             in Some \<lparr>id' = ''note-'' @ show_num measureNumber @ ''-'' @ show_nat noteIndex,
                      pitch = p, start = now, end' = num_add now secs,
                      duration = secs, measure = measureNumber, hand = h, finger = fg\<rparr>)"

text \<open>
  The loop over the note elements: the state is the note list and the running clock
  \<open>currentTime\<close>; the index counts every element, skipped or not.
\<close>

fun parse_notes ::
  "jsnum \<Rightarrow> jsnum \<Rightarrow> jsnum \<Rightarrow> nat \<Rightarrow> note_el list \<Rightarrow> Note list \<times> jsnum \<Rightarrow> Note list \<times> jsnum"
  where
  "parse_notes tmp divisions measureNumber noteIndex [] st = st"
| "parse_notes tmp divisions measureNumber noteIndex (el # els) (ns, now) =
     (case parse_note tmp divisions measureNumber noteIndex now el of
        None \<Rightarrow> parse_notes tmp divisions measureNumber (Suc noteIndex) els (ns, now)
      | Some n \<Rightarrow>
          parse_notes tmp divisions measureNumber (Suc noteIndex) els
            (ns @ [n], num_add now (duration n)))"

text \<open>The loop over the measure elements: notes, measures and the running clock.\<close>

fun parse_measures ::
  "jsnum \<Rightarrow> measure_el list \<Rightarrow> Note list \<times> MeasureTimestamp list \<times> jsnum \<Rightarrow>
   Note list \<times> MeasureTimestamp list \<times> jsnum" where
  "parse_measures tmp [] st = st"
| "parse_measures tmp (mel # mels) (ns, ms, now) =
     (let measureNumber = parseInt10 (opt_or (number_attr mel) ''1'');
          measureStartTime = now;
          divisions = read_divisions mel;
          (ns', now') = parse_notes tmp divisions measureNumber 0 (note_els mel) (ns, now)
      in parse_measures tmp mels
           (ns', ms @ [\<lparr>mt_measure = measureNumber, mt_start = measureStartTime, mt_end = now'\<rparr>],
            now'))"

definition parseMusicXML :: "xml_doc \<Rightarrow> MusicData" where
  "parseMusicXML doc =
     (let tmp = read_tempo doc;
          (ns, ms, now) = parse_measures tmp (measure_els doc) ([], [], Fin 0)
      in \<lparr>notes' = ns, measures = ms,
          title = opt_or (work_title doc) ''Untitled'',
          composer = opt_or (composer_text doc) ''Unknown'',
          tempo = tmp\<rparr>)"

text \<open>
  What the fetch gave: it was rejected (with the message of the error, when it is an Error),
  or it answered with an \<open>ok\<close> flag, a status text and a body, here already parsed.
\<close>

datatype fetch_outcome = Rejected "string option" | Responded bool string xml_doc

record xml_state =
  loading :: bool
  error :: "string option"
  musicData :: "MusicData option"

definition fetchAndParseMusicXML :: "fetch_outcome \<Rightarrow> xml_state \<Rightarrow> xml_state" where
  "fetchAndParseMusicXML r s =
     (case r of
        Rejected msg \<Rightarrow>
          s\<lparr>loading := False,
            error := Some (case msg of Some m \<Rightarrow> m | None \<Rightarrow> ''Unknown error parsing MusicXML'')\<rparr>
      | Responded ok statusText doc \<Rightarrow>
          if \<not> ok
          then s\<lparr>loading := False, error := Some (''Failed to fetch MusicXML: '' @ statusText)\<rparr>
          else s\<lparr>loading := False, error := None, musicData := Some (parseMusicXML doc)\<rparr>)"

definition getActiveNotesAtTime :: "MusicData option \<Rightarrow> jsnum \<Rightarrow> Note list" where
  "getActiveNotesAtTime md time =
     (case md of
        None \<Rightarrow> []
      | Some d \<Rightarrow> filter (\<lambda>n. num_ge time (start n) \<and> num_le time (end' n)) (notes' d))"

definition getCurrentMeasureAtTime :: "MusicData option \<Rightarrow> jsnum \<Rightarrow> jsnum" where
  "getCurrentMeasureAtTime md time =
     (case md of
        None \<Rightarrow> Fin 1
      | Some d \<Rightarrow>
          (case find (\<lambda>m. num_ge time (mt_start m) \<and> num_le time (mt_end m)) (measures d) of
             None \<Rightarrow> Fin 1
           | Some m \<Rightarrow> if truthy (mt_measure m) then mt_measure m else Fin 1))"

definition getNotesByHand :: "MusicData option \<Rightarrow> hand \<Rightarrow> Note list" where
  "getNotesByHand md h =
     (case md of
        None \<Rightarrow> []
      | Some d \<Rightarrow> if h = Both then notes' d else filter (\<lambda>n. hand n = h) (notes' d))"

text \<open>
  The same parse seen measure by measure, for stating properties: for each measure element,
  in order, the notes its note loop emits when started at the clock \<open>now\<close> with no notes
  yet, and the timestamp recorded for it.
\<close>

fun measure_runs :: "jsnum \<Rightarrow> measure_el list \<Rightarrow> jsnum \<Rightarrow> (Note list \<times> MeasureTimestamp) list" where
  "measure_runs tmp [] now = []"
| "measure_runs tmp (mel # mels) now =
     (let measureNumber = parseInt10 (opt_or (number_attr mel) ''1'');
          (new, now') = parse_notes tmp (read_divisions mel) measureNumber 0 (note_els mel) ([], now)
      in (new, \<lparr>mt_measure = measureNumber, mt_start = now, mt_end = now'\<rparr>) #
         measure_runs tmp mels now')"

definition final_clock :: "jsnum \<Rightarrow> (Note list \<times> MeasureTimestamp) list \<Rightarrow> jsnum" where
  "final_clock now rs = (if rs = [] then now else mt_end (snd (last rs)))"

text \<open>A clock value that only non-negative durations have been added to: a non-negative double or \<open>+\<infinity>\<close>.\<close>

definition clock_ok :: "jsnum \<Rightarrow> bool" where
  "clock_ok c = (case c of Fin a \<Rightarrow> 0 \<le> a \<and> fl a = Fin a | PInf \<Rightarrow> True | _ \<Rightarrow> False)"

section \<open>The metronome hook (useMetronome, in hooks/useYouTube.ts)\<close>

text \<open>
  The repeating timer that \<open>start\<close> installs runs a callback that was created in one render:
  the \<open>currentBeat\<close> it reads is the value of that render, kept in \<open>captured_beat\<close>, not
  the state variable, which only \<open>setCurrentBeat\<close> changes.
\<close>

record metronome_state =
  isPlaying :: bool
  bpm :: jsnum
  currentBeat :: nat
  interval :: "jsnum option"
  captured_beat :: nat

definition calculateInterval :: "jsnum \<Rightarrow> jsnum" where
  "calculateInterval t = num_div (Fin 60000) t"

text \<open>\<open>start\<close>, called in a render that saw \<open>currentBeat s\<close>; \<open>audio\<close> tells whether the click is loaded.\<close>

definition metronome_start :: "bool \<Rightarrow> metronome_state \<Rightarrow> metronome_state" where
  "metronome_start audio s =
     (if isPlaying s \<or> \<not> audio then s
      else s\<lparr>isPlaying := True, captured_beat := currentBeat s, currentBeat := 0,
             interval := Some (calculateInterval (bpm s))\<rparr>)"

definition metronome_stop :: "metronome_state \<Rightarrow> metronome_state" where
  "metronome_stop s = (if \<not> isPlaying s then s else s\<lparr>isPlaying := False, interval := None\<rparr>)"

text \<open>
  One firing of the timer. The result is the new state and the argument \<open>onTick\<close> was called
  with, if it was called.
\<close>

definition tick :: "bool \<Rightarrow> bool \<Rightarrow> metronome_state \<Rightarrow> metronome_state \<times> nat option" where
  "tick audio has_onTick s =
     (if \<not> audio then (s, None)
      else (s\<lparr>currentBeat := (currentBeat s + 1) mod 4\<rparr>,
            if has_onTick then Some (captured_beat s) else None))"

section \<open>Example inputs\<close>

definition example_expected :: "timed_pitch list" where
  "example_expected = [\<lparr>id' = ''note-1-0'', pitch = Fin 60, start = Fin 0, end' = Fin (5 / 6)\<rparr>]"

definition example_options :: UseMIDIOptions where
  "example_options = \<lparr>expectedNotes = Some example_expected, currentTime = Some (Fin 0)\<rparr>"

definition example_press :: "8 word list" where
  "example_press = [144, 60, 100]"

definition example_wrong_press :: "8 word list" where
  "example_wrong_press = [144, 61, 100]"

text \<open>The state after twenty-three presses of the expected pitch and seventeen of another.\<close>

definition tally_state :: midi_state where
  "tally_state =
     (handleMIDIMessage example_options 5000 1700 example_wrong_press ^^ 17)
       ((handleMIDIMessage example_options 5000 1700 example_press ^^ 23) initial_midi_state)"

definition example_state :: midi_state where
  "example_state =
     handleMIDIMessage example_options 5000 1700 [144, 61, 100]
       (handleMIDIMessage example_options 5000 1700 example_press initial_midi_state)"

definition pitched :: "string \<Rightarrow> string \<Rightarrow> string \<Rightarrow> note_el" where
  "pitched st oc du =
     \<lparr>has_rest = False, step_text = Some st, octave_text = Some oc, alter_text = None,
      duration_text = Some du, fingering_text = None\<rparr>"

definition rest_el :: "string \<Rightarrow> note_el" where
  "rest_el du =
     \<lparr>has_rest = True, step_text = None, octave_text = None, alter_text = None,
      duration_text = Some du, fingering_text = None\<rparr>"

text \<open>Three measures at 60 beats per minute; the second holds only a rest.\<close>

definition example_doc :: xml_doc where
  "example_doc =
     \<lparr>work_title = Some ''Nada Sousou'', composer_text = None, tempo_attr = Some ''60'',
      measure_els =
        [\<lparr>number_attr = Some ''1'', divisions_text = Some ''1'',
          note_els = [pitched ''C'' ''5'' ''1'', rest_el ''1'', pitched ''E'' ''5'' ''2'']\<rparr>,
         \<lparr>number_attr = Some ''2'', divisions_text = None, note_els = [rest_el ''4'']\<rparr>,
         \<lparr>number_attr = Some ''3'', divisions_text = None,
          note_els = [pitched ''G'' ''4'' ''4'']\<rparr>]\<rparr>"

text \<open>A measure whose second note has a negative duration value.\<close>

definition negative_doc :: xml_doc where
  "negative_doc =
     \<lparr>work_title = None, composer_text = None, tempo_attr = Some ''60'',
      measure_els =
        [\<lparr>number_attr = Some ''1'', divisions_text = Some ''1'',
          note_els = [pitched ''C'' ''5'' ''1'', pitched ''C'' ''5'' ''-1'']\<rparr>]\<rparr>"

text \<open>A tempo declaration whose value is not a number.\<close>

definition fast_doc :: xml_doc where
  "fast_doc =
     \<lparr>work_title = None, composer_text = None, tempo_attr = Some ''fast'',
      measure_els =
        [\<lparr>number_attr = Some ''1'', divisions_text = Some ''1'',
          note_els = [pitched ''C'' ''5'' ''1'']\<rparr>,
         \<lparr>number_attr = Some ''2'', divisions_text = None, note_els = [rest_el ''4'']\<rparr>]\<rparr>"

text \<open>Three measures of one note each; the note of the second has a negative duration value.\<close>

definition backwards_doc :: xml_doc where
  "backwards_doc =
     \<lparr>work_title = None, composer_text = None, tempo_attr = Some ''60'',
      measure_els =
        [\<lparr>number_attr = Some ''1'', divisions_text = Some ''1'',
          note_els = [pitched ''C'' ''5'' ''2'']\<rparr>,
         \<lparr>number_attr = Some ''2'', divisions_text = Some ''1'',
          note_els = [pitched ''D'' ''5'' ''-1'']\<rparr>,
         \<lparr>number_attr = Some ''3'', divisions_text = Some ''1'',
          note_els = [pitched ''E'' ''5'' ''1'']\<rparr>]\<rparr>"

text \<open>
  An ordinary score at 60 beats per minute with ten divisions to the quarter: two notes of a
  tenth of a second in the first measure, one in the second.
\<close>

definition tenth_doc :: xml_doc where
  "tenth_doc =
     \<lparr>work_title = None, composer_text = None, tempo_attr = Some ''60'',
      measure_els =
        [\<lparr>number_attr = Some ''1'', divisions_text = Some ''10'',
          note_els = [pitched ''C'' ''5'' ''1'', pitched ''D'' ''5'' ''1'']\<rparr>,
         \<lparr>number_attr = Some ''2'', divisions_text = Some ''10'',
          note_els = [pitched ''E'' ''5'' ''1'']\<rparr>]\<rparr>"

text \<open>A pickup measure, numbered 0.\<close>

definition pickup_doc :: xml_doc where
  "pickup_doc =
     \<lparr>work_title = None, composer_text = None, tempo_attr = Some ''60'',
      measure_els =
        [\<lparr>number_attr = Some ''0'', divisions_text = Some ''1'',
          note_els = [pitched ''C'' ''5'' ''1'']\<rparr>]\<rparr>"

definition example_xml_state :: xml_state where
  "example_xml_state = \<lparr>loading = True, error = None, musicData = None\<rparr>"

text \<open>A metronome that was stopped on beat 2.\<close>

definition stopped_metronome :: metronome_state where
  "stopped_metronome =
     \<lparr>isPlaying = False, bpm = Fin 120, currentBeat = 2, interval = None, captured_beat = 0\<rparr>"

section \<open>Properties of the rounding\<close>

lemma p2_pos [simp]: "0 < p2 k"
  by (simp add: p2_def)

lemma p2_nonneg [simp]: "0 \<le> p2 k"
  by (simp add: p2_def)

lemma p2_nz [simp]: "p2 k \<noteq> 0"
  by (simp add: p2_def)

lemma p2_abs [simp]: "\<bar>p2 k\<bar> = p2 k"
  by (simp add: p2_def power_int_abs)

lemma p2_add: "p2 (a + b) = p2 a * p2 b"
  by (simp add: p2_def power_int_add)

lemma p2_mono: "a \<le> b \<Longrightarrow> p2 a \<le> p2 b"
  by (simp add: p2_def power_int_increasing)

lemma p2_strict: "a < b \<Longrightarrow> p2 a < p2 b"
  by (simp add: p2_def power_int_strict_increasing)

lemma p2_less_D: "p2 a < p2 b \<Longrightarrow> a < b"
  using p2_mono [of b a] by (cases "a < b") auto

lemma p2_le_D: "p2 a \<le> p2 b \<Longrightarrow> a \<le> b"
  using p2_strict [of b a] by (cases "a \<le> b") auto

lemma p2_nat: "0 \<le> k \<Longrightarrow> p2 k = of_int (2 ^ nat k)"
  by (simp add: p2_def power_int_nonneg_exp)

lemma p2_not_le0 [simp]: "\<not> p2 k \<le> 0"
  using p2_pos [of k] by (simp only: not_le)

lemma p2_one: "p2 1 = 2"
  by (simp add: p2_def)

lemma p2_succ: "p2 (k + 1) = 2 * p2 k"
  by (simp add: p2_add p2_one)

lemma p2_diff: "p2 (a - b) = p2 a / p2 b"
  by (simp add: p2_def power_int_diff)

lemma p2_half: "p2 (k - 1) = p2 k / 2"
  using p2_add [of "k - 1" 1] by (simp add: p2_def)

lemma ilog2_from_spec:
  "p2 k \<le> x \<Longrightarrow> x < p2 (k + int fuel) \<Longrightarrow>
     p2 (ilog2_from fuel k x) \<le> x \<and> x < p2 (ilog2_from fuel k x + 1)"
proof (induction fuel arbitrary: k)
  case 0
  then show ?case by simp
next
  case (Suc fuel)
  show ?case
  proof (cases "x < p2 (k + 1)")
    case True
    with Suc.prems show ?thesis by simp
  next
    case False
    then have "p2 (k + 1) \<le> x" by simp
    moreover have "k + int (Suc fuel) = k + 1 + int fuel" by simp
    with Suc.prems(2) have "x < p2 (k + 1 + int fuel)" by (simp add: add.assoc)
    ultimately show ?thesis using Suc.IH [of "k + 1"] False by simp
  qed
qed

lemma ilog2_spec:
  assumes "p2 (- 1022) \<le> x" "x < p2 1024"
  shows "p2 (ilog2 x) \<le> x" "x < p2 (ilog2 x + 1)"
  using ilog2_from_spec [of "- 1022" x 2046] assms by (simp_all add: ilog2_def)

lemma ilog2_eq:
  assumes "p2 k \<le> x" "x < p2 (k + 1)" "- 1022 \<le> k" "k \<le> 1023"
  shows "ilog2 x = k"
proof -
  from assms(3) have "p2 (- 1022) \<le> p2 k" by (rule p2_mono)
  with assms(1) have lo: "p2 (- 1022) \<le> x" by simp
  from assms(4) have "p2 (k + 1) \<le> p2 1024" by (intro p2_mono) simp
  with assms(2) have hi: "x < p2 1024" by simp
  note s = ilog2_spec [OF lo hi]
  from s(1) assms(2) have "p2 (ilog2 x) < p2 (k + 1)" by simp
  then have "ilog2 x < k + 1" by (rule p2_less_D)
  moreover from assms(1) s(2) have "p2 k < p2 (ilog2 x + 1)" by simp
  then have "k < ilog2 x + 1" by (rule p2_less_D)
  ultimately show ?thesis by simp
qed

lemma rhe_of_int [simp]: "rhe (of_int n) = n"
  by (simp add: rhe_def)

lemma rhe_zero [simp]: "rhe 0 = 0"
  by (simp add: rhe_def)

lemma rhe_err: "\<bar>of_int (rhe m) - m\<bar> \<le> 1 / 2"
  unfolding rhe_def Let_def by (auto split: if_splits)

lemma rhe_near: "\<bar>m - of_int n\<bar> < 1 / 2 \<Longrightarrow> rhe m = n"
proof -
  assume a: "\<bar>m - of_int n\<bar> < 1 / 2"
  have "\<bar>of_int (rhe m) - m\<bar> \<le> 1 / 2" by (rule rhe_err)
  with a have "\<bar>of_int (rhe m) - (of_int n :: real)\<bar> < 1" by linarith
  then have "\<bar>of_int (rhe m - n) :: real\<bar> < 1" by simp
  then have "\<bar>rhe m - n\<bar> < 1" by linarith
  then show ?thesis by simp
qed

lemma rhe_mono: "a \<le> b \<Longrightarrow> rhe a \<le> rhe b"
proof -
  assume ab: "a \<le> b"
  then have f: "\<lfloor>a\<rfloor> \<le> \<lfloor>b\<rfloor>" by (rule floor_mono)
  have ra: "rhe a = \<lfloor>a\<rfloor> \<or> rhe a = \<lfloor>a\<rfloor> + 1"
    and rb: "rhe b = \<lfloor>b\<rfloor> \<or> rhe b = \<lfloor>b\<rfloor> + 1"
    by (auto simp: rhe_def Let_def)
  show ?thesis
  proof (cases "\<lfloor>a\<rfloor> < \<lfloor>b\<rfloor>")
    case True
    with ra rb show ?thesis by auto
  next
    case False
    with f have eq: "\<lfloor>a\<rfloor> = \<lfloor>b\<rfloor>" by simp
    with ab show ?thesis
      by (auto simp: rhe_def Let_def split: if_splits)
  qed
qed


lemma quantum_low: "- 1074 \<le> quantum x" if "\<bar>x\<bar> < p2 1024"
proof (cases "\<bar>x\<bar> < p2 (- 1022)")
  case True
  then show ?thesis by (simp add: quantum_def)
next
  case False
  then have lo: "p2 (- 1022) \<le> \<bar>x\<bar>" by simp
  from ilog2_spec(2) [OF lo that] lo have "p2 (- 1022) < p2 (ilog2 \<bar>x\<bar> + 1)" by simp
  then have "- 1022 < ilog2 \<bar>x\<bar> + 1" by (rule p2_less_D)
  with False show ?thesis by (simp add: quantum_def)
qed

lemma quantum_upper: "\<bar>x\<bar> < p2 (quantum x + 53)" if "\<bar>x\<bar> < p2 1024"
proof (cases "\<bar>x\<bar> < p2 (- 1022)")
  case True
  moreover have "p2 (- 1022) \<le> p2 (- 1074 + 53)" by (intro p2_mono) simp
  ultimately show ?thesis by (simp add: quantum_def)
next
  case False
  then have lo: "p2 (- 1022) \<le> \<bar>x\<bar>" by simp
  from False have e: "quantum x + 53 = ilog2 \<bar>x\<bar> + 1" by (simp add: quantum_def)
  from ilog2_spec(2) [OF lo that] show ?thesis by (simp only: e)
qed

lemma quantum_lower: "p2 (quantum x + 52) \<le> \<bar>x\<bar>" if "\<bar>x\<bar> < p2 1024" "- 1074 < quantum x"
proof (cases "\<bar>x\<bar> < p2 (- 1022)")
  case True
  with that(2) show ?thesis by (simp add: quantum_def)
next
  case False
  then have lo: "p2 (- 1022) \<le> \<bar>x\<bar>" by simp
  from False have e: "quantum x + 52 = ilog2 \<bar>x\<bar>" by (simp add: quantum_def)
  from ilog2_spec(1) [OF lo that(1)] show ?thesis by (simp only: e)
qed

lemma quantum_le:
  assumes "\<bar>x\<bar> < p2 (k + 1)" "- 1022 \<le> k" "k \<le> 1023"
  shows "quantum x \<le> k - 52"
proof (cases "- 1074 < quantum x")
  case False
  with assms(2) show ?thesis by simp
next
  case True
  from assms(3) have "p2 (k + 1) \<le> p2 1024" by (intro p2_mono) simp
  with assms(1) have hi: "\<bar>x\<bar> < p2 1024" by simp
  from quantum_lower [OF hi True] assms(1) have "p2 (quantum x + 52) < p2 (k + 1)" by simp
  then have "quantum x + 52 < k + 1" by (rule p2_less_D)
  then show ?thesis by simp
qed

lemma quantum_mono:
  assumes "\<bar>x\<bar> \<le> \<bar>y\<bar>" "\<bar>y\<bar> < p2 1024"
  shows "quantum x \<le> quantum y"
proof (cases "- 1074 < quantum x")
  case False
  with quantum_low [OF assms(2)] show ?thesis
    using quantum_low [of x] assms by simp
next
  case True
  from assms have hx: "\<bar>x\<bar> < p2 1024" by simp
  from quantum_lower [OF hx True] assms(1) quantum_upper [OF assms(2)]
  have "p2 (quantum x + 52) < p2 (quantum y + 53)" by simp
  then have "quantum x + 52 < quantum y + 53" by (rule p2_less_D)
  then show ?thesis by simp
qed

lemma rhe_bound: "\<bar>m\<bar> \<le> of_int N \<Longrightarrow> \<bar>rhe m\<bar> \<le> N"
proof -
  assume a: "\<bar>m\<bar> \<le> of_int N"
  then have u: "m \<le> of_int N" and l: "of_int (- N) \<le> m" by simp_all
  from rhe_mono [OF u] rhe_mono [OF l] show ?thesis
    by (simp del: of_int_minus)
qed

lemma fl_alt:
  "fl x = (if p2 1024 \<le> \<bar>x\<bar> \<or> p2 1024 \<le> \<bar>fl_val x\<bar> then (if 0 < x then PInf else NInf)
           else Fin (fl_val x))"
  by (simp add: fl_def)

lemma fl_val_err: "\<bar>fl_val x - x\<bar> \<le> p2 (quantum x - 1)"
proof -
  let ?q = "p2 (quantum x)"
  have "fl_val x - x = (of_int (rhe (x / ?q)) - x / ?q) * ?q"
    by (simp add: fl_val_def field_simps)
  then have "\<bar>fl_val x - x\<bar> = \<bar>of_int (rhe (x / ?q)) - x / ?q\<bar> * ?q"
    by (simp add: abs_mult)
  also have "\<dots> \<le> 1 / 2 * ?q"
    by (intro mult_right_mono rhe_err) simp
  finally show ?thesis by (simp add: p2_half)
qed

lemma fl_val_mantissa: "\<bar>x\<bar> < p2 1024 \<Longrightarrow> \<bar>rhe (x / p2 (quantum x))\<bar> \<le> 2 ^ 53"
proof -
  assume hx: "\<bar>x\<bar> < p2 1024"
  from quantum_upper [OF hx] have "\<bar>x\<bar> < p2 (quantum x) * p2 53"
    by (simp add: p2_add)
  then have "\<bar>x\<bar> / p2 (quantum x) < p2 53"
    by (simp add: field_simps)
  then have "\<bar>x / p2 (quantum x)\<bar> \<le> of_int (2 ^ 53)"
    by (simp add: p2_nat)
  then show ?thesis by (rule rhe_bound)
qed


lemma fl_exact_strict:
  assumes x: "x = of_int m * p2 e" and m: "\<bar>m\<bar> < 2 ^ 53" and e: "- 1074 \<le> e"
    and hx: "\<bar>x\<bar> < p2 1024"
  shows "fl x = Fin x"
proof -
  let ?q = "quantum x"
  have qe: "?q \<le> e"
  proof (cases "- 1074 < ?q")
    case False
    with e show ?thesis by simp
  next
    case True
    from m have "\<bar>of_int m :: real\<bar> < of_int (2 ^ 53)"
      by (simp only: of_int_abs [symmetric] of_int_less_iff)
    then have "\<bar>of_int m :: real\<bar> < p2 53" by (simp add: p2_nat)
    then have "\<bar>x\<bar> < p2 53 * p2 e"
      by (simp add: x abs_mult)
    then have "\<bar>x\<bar> < p2 (e + 53)" by (simp add: p2_add mult.commute)
    with quantum_lower [OF hx True] have "p2 (?q + 52) < p2 (e + 53)" by simp
    then have "?q + 52 < e + 53" by (rule p2_less_D)
    then show ?thesis by simp
  qed
  from x have "x / p2 ?q = of_int m * p2 e / p2 ?q"
    by (rule arg_cong [where f = "\<lambda>t. t / p2 ?q"])
  also have "\<dots> = of_int m * p2 (e - ?q)"
    by (simp add: p2_diff)
  also from qe have "p2 (e - ?q) = of_int (2 ^ nat (e - ?q))"
    by (intro p2_nat) simp
  finally have "x / p2 ?q = of_int (m * 2 ^ nat (e - ?q))"
    by simp
  then have "rhe (x / p2 ?q) = m * 2 ^ nat (e - ?q)"
    by (simp only: rhe_of_int)
  then have "fl_val x = of_int (m * 2 ^ nat (e - ?q)) * p2 ?q"
    by (simp only: fl_val_def)
  also have "\<dots> = x / p2 ?q * p2 ?q"
    using \<open>x / p2 ?q = of_int (m * 2 ^ nat (e - ?q))\<close> by simp
  finally have "fl_val x = x" by simp
  with hx show ?thesis by (simp add: fl_alt)
qed

lemma fl_exact:
  assumes x: "x = of_int m * p2 e" and m: "\<bar>m\<bar> \<le> 2 ^ 53" and e: "- 1074 \<le> e"
    and hx: "\<bar>x\<bar> < p2 1024"
  shows "fl x = Fin x"
proof (cases "\<bar>m\<bar> < 2 ^ 53")
  case True
  from x True e hx show ?thesis by (rule fl_exact_strict)
next
  case False
  with m have "\<bar>m\<bar> = 2 ^ 53" by simp
  then consider "m = 2 ^ 53" | "m = - (2 ^ 53)" by linarith
  then obtain m' :: int where m': "m = m' * 2" "\<bar>m'\<bar> < 2 ^ 53"
  proof cases
    case 1
    then have "m = 2 ^ 52 * 2" "\<bar>2 ^ 52 :: int\<bar> < 2 ^ 53" by simp_all
    then show ?thesis by (rule that)
  next
    case 2
    then have "m = - (2 ^ 52) * 2" "\<bar>- (2 ^ 52) :: int\<bar> < 2 ^ 53" by simp_all
    then show ?thesis by (rule that)
  qed
  from x m'(1) have "x = of_int m' * p2 (e + 1)" by (simp add: p2_succ)
  moreover from e have "- 1074 \<le> e + 1" by simp
  ultimately show ?thesis using m'(2) hx by (intro fl_exact_strict [of x m' "e + 1"])
qed

lemma fl_idem: "fl x = Fin r \<Longrightarrow> fl r = Fin r"
proof -
  assume a: "fl x = Fin r"
  then have hx: "\<bar>x\<bar> < p2 1024" and r: "r = fl_val x" and hr: "\<bar>r\<bar> < p2 1024"
    by (auto simp: fl_alt split: if_splits)
  from r have "r = of_int (rhe (x / p2 (quantum x))) * p2 (quantum x)"
    by (simp add: fl_val_def)
  then show ?thesis
    using fl_val_mantissa [OF hx] quantum_low [OF hx] hr by (rule fl_exact)
qed

lemma fl_zero [simp]: "fl 0 = Fin 0"
  by (rule fl_exact [of 0 0 0]) simp_all

lemma fl_of_int: "\<bar>i\<bar> \<le> 2 ^ 53 \<Longrightarrow> fl (of_int i) = Fin (of_int i)"
proof (rule fl_exact [of _ i 0])
  assume a: "\<bar>i\<bar> \<le> 2 ^ 53"
  then have "\<bar>of_int i :: real\<bar> \<le> of_int (2 ^ 53)"
    by (simp only: of_int_abs [symmetric] of_int_le_iff)
  also have "\<dots> = p2 53" by (simp add: p2_nat)
  also have "\<dots> < p2 1024" by (intro p2_strict) simp
  finally show "\<bar>of_int i :: real\<bar> < p2 1024" .
qed (simp_all add: p2_def)

lemma fl_numeral [simp]:
  "(numeral k :: int) \<le> 9007199254740992 \<Longrightarrow> fl (numeral k) = Fin (numeral k)"
  using fl_of_int [of "numeral k"] by simp

lemma fl_neg_numeral [simp]:
  "(numeral k :: int) \<le> 9007199254740992 \<Longrightarrow> fl (- numeral k) = Fin (- numeral k)"
  using fl_of_int [of "- numeral k"] by simp

lemma fl_one [simp]: "fl 1 = Fin 1"
  using fl_of_int [of 1] by simp

lemma fl_minus_one [simp]: "fl (- 1) = Fin (- 1)"
  using fl_of_int [of "- 1"] by simp

lemma fl_val_nonneg: "0 \<le> x \<Longrightarrow> 0 \<le> fl_val x"
proof -
  assume "0 \<le> x"
  then have "0 \<le> x / p2 (quantum x)" by simp
  from rhe_mono [OF this] show ?thesis by (simp add: fl_val_def)
qed

lemma fl_val_zero [simp]: "fl_val 0 = 0"
  by (simp add: fl_val_def)

lemma fl_val_mono:
  assumes "0 \<le> x" "x \<le> y" "y < p2 1024"
  shows "fl_val x \<le> fl_val y"
proof -
  from assms have ax: "\<bar>x\<bar> = x" and ay: "\<bar>y\<bar> = y" by simp_all
  from assms have hx: "\<bar>x\<bar> < p2 1024" and hy: "\<bar>y\<bar> < p2 1024" by simp_all
  from assms have q: "quantum x \<le> quantum y"
    by (intro quantum_mono) simp_all
  show ?thesis
  proof (cases "quantum x = quantum y")
    case True
    from assms(2) have "x / p2 (quantum y) \<le> y / p2 (quantum y)"
      by (simp add: divide_right_mono)
    from rhe_mono [OF this] show ?thesis
      by (simp add: fl_val_def True)
  next
    case False
    with q have lt: "quantum x < quantum y" by simp
    with quantum_low [OF hx] have "- 1074 < quantum y" by simp
    from quantum_lower [OF hy this] have "p2 (quantum y) * p2 52 \<le> y"
      by (simp add: p2_add ay)
    then have "of_int (2 ^ 52) \<le> y / p2 (quantum y)"
      by (simp add: field_simps p2_nat)
    from rhe_mono [OF this] have "2 ^ 52 \<le> rhe (y / p2 (quantum y))"
      by (simp only: rhe_of_int)
    then have "(of_int (2 ^ 52) :: real) \<le> of_int (rhe (y / p2 (quantum y)))"
      by (simp only: of_int_le_iff)
    then have "of_int (2 ^ 52) * p2 (quantum y) \<le> fl_val y"
      unfolding fl_val_def by (intro mult_right_mono) simp_all
    then have lo: "p2 (quantum y + 52) \<le> fl_val y"
      by (simp add: p2_add p2_nat mult.commute)
    from fl_val_mantissa [OF hx] have "rhe (x / p2 (quantum x)) \<le> 2 ^ 53" by simp
    then have "(of_int (rhe (x / p2 (quantum x))) :: real) \<le> of_int (2 ^ 53)"
      by (simp only: of_int_le_iff)
    then have "fl_val x \<le> of_int (2 ^ 53) * p2 (quantum x)"
      unfolding fl_val_def by (intro mult_right_mono) simp_all
    then have "fl_val x \<le> p2 (quantum x + 53)"
      by (simp add: p2_add p2_nat mult.commute)
    also from lt have "\<dots> \<le> p2 (quantum y + 52)" by (intro p2_mono) simp
    finally show ?thesis using lo by simp
  qed
qed

lemma fl_cases_nonneg:
  assumes "0 \<le> x"
  shows "fl x = PInf \<or> (fl x = Fin (fl_val x) \<and> 0 \<le> fl_val x \<and> fl_val x < p2 1024 \<and> x < p2 1024)"
  using assms fl_val_nonneg [OF assms] by (auto simp: fl_alt)

lemma fl_mono_nonneg:
  assumes "0 \<le> x" "x \<le> y"
  shows "num_le (fl x) (fl y)"
proof -
  from assms have y0: "0 \<le> y" by simp
  show ?thesis
  proof (cases "fl y = PInf")
    case True
    with fl_cases_nonneg [OF assms(1)] show ?thesis by auto
  next
    case False
    with fl_cases_nonneg [OF y0] have y: "fl y = Fin (fl_val y)" "fl_val y < p2 1024" "y < p2 1024"
      by auto
    from fl_val_mono [OF assms y(3)] y(2) have "fl_val x < p2 1024" by simp
    moreover from assms y(3) have "x < p2 1024" by simp
    ultimately have "fl x = Fin (fl_val x)"
      using assms(1) fl_val_nonneg [OF assms(1)] by (simp add: fl_alt)
    with y(1) fl_val_mono [OF assms y(3)] show ?thesis by simp
  qed
qed

lemma fl_err:
  assumes "\<bar>x\<bar> < p2 (k + 1)" "- 1022 \<le> k" "k \<le> 1022"
  shows "fl x = Fin (fl_val x)" "\<bar>fl_val x - x\<bar> \<le> p2 (k - 53)"
proof -
  from assms(3) have k: "k \<le> 1023" by simp
  from quantum_le [OF assms(1,2) k] have "p2 (quantum x - 1) \<le> p2 (k - 53)"
    by (intro p2_mono) simp
  with fl_val_err [of x] show e: "\<bar>fl_val x - x\<bar> \<le> p2 (k - 53)" by simp
  have "p2 (k - 53) \<le> p2 (k + 1)" by (intro p2_mono) simp
  with e assms(1) have "\<bar>fl_val x\<bar> < p2 (k + 1) + p2 (k + 1)" by linarith
  moreover have "p2 (k + 2) = 2 * p2 (k + 1)"
    using p2_succ [of "k + 1"] by (simp add: add.assoc)
  moreover from assms(3) have "p2 (k + 2) \<le> p2 1024" by (intro p2_mono) simp
  ultimately have "\<bar>fl_val x\<bar> < p2 1024" by linarith
  moreover from assms(3) have "p2 (k + 1) \<le> p2 1024" by (intro p2_mono) simp
  with assms(1) have "\<bar>x\<bar> < p2 1024" by simp
  ultimately show "fl x = Fin (fl_val x)" by (simp add: fl_alt)
qed


text \<open>Evaluating the rounding at a given number, once its binade is known.\<close>

lemma fl_at:
  assumes "p2 k \<le> \<bar>x\<bar>" "\<bar>x\<bar> < p2 (k + 1)" "- 1022 \<le> k" "k \<le> 1022"
    and "rhe (x / p2 (k - 52)) = n"
  shows "fl x = Fin (of_int n * p2 (k - 52))"
proof -
  from assms(4) have k: "k \<le> 1023" by simp
  from assms(3) have "p2 (- 1022) \<le> p2 k" by (rule p2_mono)
  with assms(1) have "\<not> \<bar>x\<bar> < p2 (- 1022)" by simp
  then have "quantum x = k - 52"
    using ilog2_eq [OF assms(1,2,3) k] by (simp add: quantum_def)
  with assms(5) have "fl_val x = of_int n * p2 (k - 52)"
    by (simp add: fl_val_def)
  with fl_err(1) [OF assms(2,3,4)] show ?thesis by simp
qed

text \<open>
  The error of one rounding, relative to the rounded value: at most \<open>2^-53\<close> of it in the
  normal range and at most \<open>2^-1075\<close> below it.
\<close>

lemma fl_val_p2:
  assumes "- 1074 \<le> k" "k < 1024"
  shows "fl_val (p2 k) = p2 k"
proof -
  from assms(2) have "p2 k < p2 1024" by (rule p2_strict)
  then have hx: "\<bar>p2 k\<bar> < p2 1024" by simp
  have "fl (p2 k) = Fin (p2 k)"
    by (rule fl_exact [of _ 1 k]) (use assms hx in simp_all)
  with hx show ?thesis by (auto simp: fl_alt split: if_splits)
qed

lemma fl_rel_err:
  assumes x: "0 \<le> x" and r: "fl x = Fin r"
  shows "\<bar>r - x\<bar> \<le> r / 2 ^ 53 + 1 / 2 ^ 1075" and "0 \<le> r"
proof -
  from r have hx: "\<bar>x\<bar> < p2 1024" and rv: "r = fl_val x"
    by (auto simp: fl_alt split: if_splits)
  from fl_val_nonneg [OF x] rv show r0: "0 \<le> r" by simp
  have e: "\<bar>r - x\<bar> \<le> p2 (quantum x - 1)" unfolding rv by (rule fl_val_err)
  show "\<bar>r - x\<bar> \<le> r / 2 ^ 53 + 1 / 2 ^ 1075"
  proof (cases "- 1074 < quantum x")
    case False
    with quantum_low [OF hx] have "quantum x = - 1074" by simp
    with e have "\<bar>r - x\<bar> \<le> p2 (- 1075)" by simp
    also have "p2 (- 1075) = 1 / 2 ^ 1075" by (simp add: p2_def power_int_minus_divide)
    finally show ?thesis using r0 by (simp add: add_increasing)
  next
    case True
    let ?k = "quantum x + 52"
    from quantum_lower [OF hx True] x have lo: "p2 ?k \<le> x" by simp
    from hx x have x1: "x < p2 1024" by simp
    with lo have "p2 ?k < p2 1024" by simp
    then have k: "?k < 1024" by (rule p2_less_D)
    from True have k': "- 1074 \<le> ?k" by simp
    from fl_val_mono [OF _ lo x1] have "fl_val (p2 ?k) \<le> r" by (simp add: rv)
    with fl_val_p2 [OF k' k] have pr: "p2 ?k \<le> r" by simp
    have "p2 (quantum x - 1) = p2 (?k + - 53)" by (rule arg_cong [where f = p2]) simp
    also have "\<dots> = p2 ?k * p2 (- 53)" by (rule p2_add)
    also have "p2 (- 53) = 1 / 2 ^ 53" by (simp add: p2_def power_int_minus_divide)
    finally have "p2 (quantum x - 1) = p2 ?k / 2 ^ 53" by simp
    also from pr have "\<dots> \<le> r / 2 ^ 53" by (simp add: divide_right_mono)
    finally have "p2 (quantum x - 1) \<le> r / 2 ^ 53" .
    with e show ?thesis by simp
  qed
qed

section \<open>Properties of the MIDI hook\<close>

lemma byte_at_1 [simp]: "byte_at (a # b # r) 1 = Some b"
  by simp

lemma byte_at_2 [simp]: "byte_at (a # b # c # r) 2 = Some c"
  by (simp add: numeral_2_eq_2)


lemma handle_note_on_accuracy:
  assumes on: "is_note_on d"
    and nt: "byte_at d 1 = Some nt"
    and ens: "expectedNotes options = Some ens"
    and t: "currentTime options = Some t"
  shows "accuracy (handleMIDIMessage options perf_now date_now d s) =
           accuracy s @
           [case find (matches t nt) ens of
              Some e \<Rightarrow>
                \<lparr>noteId = id' e, expectedNote = pitch e, actualNote = byte_num nt,
                 timingOffset = num_round (num_mul (num_sub (Fin perf_now) (start e)) (Fin 1000)),
                 isCorrect = True\<rparr>
            | None \<Rightarrow>
                \<lparr>noteId = ''wrong-'' @ show_nat date_now, expectedNote = Fin (- 1),
                 actualNote = byte_num nt, timingOffset = Fin 0, isCorrect = False\<rparr>]"
proof -
  from on obtain vel where vel: "byte_at d 2 = Some vel"
    by (auto simp: is_note_on_def split: option.splits)
  from nt have nt': "byte_at d (Suc 0) = Some nt" by simp
  show ?thesis
    by (simp add: handleMIDIMessage_def on nt' vel ens t split: option.split)
qed

text \<open>
  For finite values the matching predicate is the window of one second around the start,
  measured on the rounded difference.
\<close>

lemma matches_finite:
  "matches (Fin t) nt (n\<lparr>start := Fin a, pitch := Fin p\<rparr>) \<longleftrightarrow>
     num_lt (num_abs (fl (a - t))) (Fin 1) \<and> p = real (unat nt)"
  by (auto simp: matches_def num_sub_def strict_eq_def byte_num_def)



lemma handle_accuracy_step:
  "accuracy (handleMIDIMessage options perf_now date_now d s) = accuracy s \<or>
   (\<exists>r. accuracy (handleMIDIMessage options perf_now date_now d s) = accuracy s @ [r] \<and>
        (\<not> isCorrect r \<longrightarrow> timingOffset r = Fin 0))"
proof (cases "is_note_on d")
  case False
  then show ?thesis by (simp add: handleMIDIMessage_def)
next
  case True
  then obtain nt vel where b: "byte_at d (Suc 0) = Some nt" "byte_at d 2 = Some vel"
    by (cases d; cases "tl d"; cases "tl (tl d)") (auto simp: is_note_on_def numeral_2_eq_2)
  show ?thesis
  proof (cases "expectedNotes options")
    case None
    with True b show ?thesis by (simp add: handleMIDIMessage_def)
  next
    case ens: (Some ens)
    show ?thesis
    proof (cases "currentTime options")
      case None
      with True b ens show ?thesis by (simp add: handleMIDIMessage_def)
    next
      case t: (Some t)
      from b have nt: "byte_at d 1 = Some nt" by simp
      note acc = handle_note_on_accuracy [OF True nt ens t, of perf_now date_now s]
      show ?thesis
      proof (cases "find (matches t nt) ens")
        case None
        with acc show ?thesis by simp
      next
        case (Some e)
        with acc show ?thesis by simp
      qed
    qed
  qed
qed

lemma reachable_log:
  "reachable s \<Longrightarrow> \<forall>e\<in>set (accuracy s). \<not> isCorrect e \<longrightarrow> timingOffset e = Fin 0"
proof (induction rule: reachable.induct)
  case (r_init s)
  then show ?case by simp
next
  case (r_message s options perf_now date_now d)
  from handle_accuracy_step [of options perf_now date_now d s] r_message.IH
  show ?case by auto
next
  case (r_reset s)
  then show ?case by (simp add: resetStats_def)
next
  case (r_select s inputId)
  then show ?case by (simp add: selectInput_def split: option.split)
qed

lemma sum_abs_nonneg: "0 \<le> (\<Sum>k\<leftarrow>offs. \<bar>k :: int\<bar>)"
  by (induction offs) simp_all

text \<open>Sums of whole numbers are exact as long as they stay within 53 bits.\<close>

lemma sum_abs_offsets:
  "map timingOffset lg = map (\<lambda>k. Fin (of_int k)) offs \<Longrightarrow> 0 \<le> z \<Longrightarrow>
   z + (\<Sum>k\<leftarrow>offs. \<bar>k\<bar>) \<le> 2 ^ 53 \<Longrightarrow>
     foldl (\<lambda>sum a. num_add sum (num_abs (timingOffset a))) (Fin (of_int z)) lg =
       Fin (of_int (z + (\<Sum>k\<leftarrow>offs. \<bar>k\<bar>)))"
proof (induction lg arbitrary: z offs)
  case Nil
  then show ?case by simp
next
  case (Cons e lg)
  then obtain k rest where o: "offs = k # rest" "timingOffset e = Fin (of_int k)"
      "map timingOffset lg = map (\<lambda>k. Fin (of_int k)) rest"
    by (cases offs) auto
  from sum_abs_nonneg [of rest] Cons.prems(2,3) o(1)
  have b: "\<bar>z + \<bar>k\<bar>\<bar> \<le> 2 ^ 53" and z': "0 \<le> z + \<bar>k\<bar>"
    and rest: "z + \<bar>k\<bar> + (\<Sum>k\<leftarrow>rest. \<bar>k\<bar>) \<le> 2 ^ 53"
    by simp_all
  have "num_add (Fin (of_int z)) (num_abs (timingOffset e)) = fl (of_int (z + \<bar>k\<bar>))"
    by (simp add: o(2))
  also from b have "\<dots> = Fin (of_int (z + \<bar>k\<bar>))" by (rule fl_of_int)
  finally have step: "num_add (Fin (of_int z)) (num_abs (timingOffset e)) = Fin (of_int (z + \<bar>k\<bar>))" .
  from Cons.IH [OF o(3) z' rest] show ?case
    by (simp add: step o(1) add.assoc)
qed

text \<open>The percentage: two roundings, of the quotient and of the product.\<close>

lemma percentage_bound:
  assumes "lg \<noteq> []"
  shows "\<exists>p::int. accuracyPercentage lg = Fin (of_int p) \<and>
           \<bar>of_int p - 100 * real (length (filter isCorrect lg)) / real (length lg)\<bar>
             \<le> 1 / 2 + 1 / 2 ^ 45"
proof -
  let ?c = "real (length (filter isCorrect lg))"
  let ?n = "real (length lg)"
  let ?x = "?c / ?n"
  from assms have n: "0 < ?n" by simp
  have c: "0 \<le> ?c" "?c \<le> ?n" by simp_all
  from n c have x: "0 \<le> ?x" "?x \<le> 1" by simp_all
  then have "\<bar>?x\<bar> < p2 (0 + 1)" by (simp add: p2_one)
  from fl_err [OF this] have r: "fl ?x = Fin (fl_val ?x)"
    and er: "\<bar>fl_val ?x - ?x\<bar> \<le> p2 (- 53)" by simp_all
  let ?r = "fl_val ?x"
  have p53: "p2 (- 53) = 1 / 2 ^ 53" and p47: "p2 (- 47) = 1 / 2 ^ 47"
    and p7: "p2 7 = 128"
    by (simp_all add: p2_def power_int_minus_divide)
  from er x have "\<bar>?r\<bar> \<le> 1 + p2 (- 53)" by linarith
  then have "\<bar>?r * 100\<bar> < p2 (6 + 1)"
    by (simp add: abs_mult p53 p7)
  from fl_err [OF this] have z: "fl (?r * 100) = Fin (fl_val (?r * 100))"
    and ez: "\<bar>fl_val (?r * 100) - ?r * 100\<bar> \<le> p2 (- 47)" by simp_all
  let ?y = "fl_val (?r * 100)"
  let ?p = "\<lfloor>?y + 1 / 2\<rfloor>"
  from n have "accuracyPercentage lg = num_round (num_mul (fl ?x) (Fin 100))"
    by (simp add: accuracyPercentage_def assms)
  then have 1: "accuracyPercentage lg = Fin (of_int ?p)"
    by (simp add: r z)
  have "\<bar>of_int ?p - ?y\<bar> \<le> 1 / 2" by linarith
  moreover have "\<bar>?y - 100 * ?x\<bar> \<le> p2 (- 47) + 100 * p2 (- 53)"
    using ez er by linarith
  moreover have "p2 (- 47) + 100 * p2 (- 53) \<le> 1 / 2 ^ 45"
    by (simp add: p53 p47)
  ultimately have "\<bar>of_int ?p - 100 * ?x\<bar> \<le> 1 / 2 + 1 / 2 ^ 45" by linarith
  with 1 show ?thesis by (intro exI [of _ ?p]) simp
qed

lemma percentage_all_correct:
  assumes "lg \<noteq> []" "\<forall>e\<in>set lg. isCorrect e"
  shows "accuracyPercentage lg = Fin 100"
proof -
  from assms(2) have "filter isCorrect lg = lg" by (simp add: filter_id_conv)
  with assms(1) show ?thesis by (simp add: accuracyPercentage_def)
qed

lemma percentage_none_correct:
  assumes "lg \<noteq> []" "\<forall>e\<in>set lg. \<not> isCorrect e"
  shows "accuracyPercentage lg = Fin 0"
proof -
  from assms(2) have "filter isCorrect lg = []" by (simp add: filter_empty_conv)
  with assms(1) show ?thesis by (simp add: accuracyPercentage_def)
qed

text \<open>
  A quotient of whole numbers keeps its rounding to the nearest integer when it is disturbed
  by less than half of one over the denominator, provided a quotient that lies exactly on a
  half is not disturbed at all.
\<close>

lemma floor_half_stable:
  fixes S n :: int and y :: real
  assumes n: "0 < n" and err: "\<bar>y - of_int S / of_int n\<bar> < 1 / (2 * of_int n)"
    and half: "(of_int S / of_int n + 1 / 2 :: real) = of_int \<lfloor>of_int S / of_int n + 1 / 2 :: real\<rfloor>
                 \<Longrightarrow> y = of_int S / of_int n"
  shows "\<lfloor>y + 1 / 2\<rfloor> = \<lfloor>of_int S / of_int n + 1 / 2 :: real\<rfloor>"
proof -
  define x :: real where "x = of_int S / of_int n"
  define j where "j = \<lfloor>x + 1 / 2\<rfloor>"
  define M where "M = 2 * S + n - 2 * n * j"
  from n have n': "(0::real) < of_int n" by simp
  have j: "of_int j \<le> x + 1 / 2" "x + 1 / 2 < of_int j + 1"
    unfolding j_def by linarith+
  have M: "(x + 1 / 2 - of_int j) * (2 * of_int n) = of_int M"
    using n' by (simp add: x_def M_def field_simps)
  from j(1) n' have "0 \<le> (x + 1 / 2 - of_int j) * (2 * of_int n)" by simp
  with M have "(0::real) \<le> of_int M" by simp
  then have M0: "0 \<le> M" by simp
  from j(2) n' have "(x + 1 / 2 - of_int j) * (2 * of_int n) < 1 * (2 * of_int n)"
    by (intro mult_strict_right_mono) simp_all
  with M have "(of_int M :: real) < of_int (2 * n)" by simp
  then have "M < 2 * n" by (simp only: of_int_less_iff)
  then have M1: "M + 1 \<le> 2 * n" by simp
  from M n' have d: "x + 1 / 2 - of_int j = of_int M / (2 * of_int n)"
    by (simp add: field_simps)
  show ?thesis
  proof (cases "M = 0")
    case True
    with d have "x + 1 / 2 = of_int j" by simp
    with half have "y = x" by (simp add: x_def j_def)
    then show ?thesis by (simp add: x_def)
  next
    case False
    with M0 have "1 \<le> M" by simp
    then have "(1::real) \<le> of_int M" by simp
    with n' have lo: "1 / (2 * of_int n) \<le> x + 1 / 2 - of_int j"
      by (simp add: d divide_right_mono)
    from M1 have "(of_int (M + 1) :: real) \<le> of_int (2 * n)" by (simp only: of_int_le_iff)
    then have "(of_int M :: real) \<le> 2 * of_int n - 1" by simp
    with n' have "(of_int M :: real) / (2 * of_int n) \<le> (2 * of_int n - 1) / (2 * of_int n)"
      by (simp add: divide_right_mono)
    also from n' have "\<dots> = 1 - 1 / (2 * of_int n)" by (simp add: field_simps)
    finally have hi: "x + 1 / 2 - of_int j \<le> 1 - 1 / (2 * of_int n)" by (simp add: d)
    from err have "\<bar>y - x\<bar> < 1 / (2 * of_int n)" by (simp add: x_def)
    with lo hi have "of_int j \<le> y + 1 / 2" "y + 1 / 2 < of_int j + 1" by linarith+
    then have "\<lfloor>y + 1 / 2\<rfloor> = j" by (rule floor_unique)
    then show ?thesis by (simp add: j_def x_def)
  qed
qed

text \<open>The average: an exact sum, one rounding of the quotient.\<close>

lemma average_rounded_mean:
  assumes offs: "map timingOffset lg = map (\<lambda>k. Fin (of_int k)) offs"
    and ne: "lg \<noteq> []" and sum: "(\<Sum>k\<leftarrow>offs. \<bar>k\<bar>) < 2 ^ 52" and len: "length lg < 2 ^ 32"
  shows "averageTimingOffset lg =
           Fin (of_int (round (real_of_int (\<Sum>k\<leftarrow>offs. \<bar>k\<bar>) / real (length lg))))"
proof -
  define S where "S = (\<Sum>k\<leftarrow>offs. \<bar>k\<bar>)"
  define n where "n = int (length lg)"
  define x :: real where "x = of_int S / of_int n"
  from ne have n: "0 < n" by (simp add: n_def)
  then have n': "(1::real) \<le> of_int n" by simp
  have S0: "0 \<le> S" unfolding S_def by (rule sum_abs_nonneg)
  from sum have S52: "S < 2 ^ 52" by (simp add: S_def)
  then have S52': "(of_int S :: real) < 2 ^ 52" by (simp add: of_int_less_numeral_power_cancel_iff)
  from S0 n have x0: "0 \<le> x" by (simp add: x_def)
  have "x \<le> of_int S"
    using S0 n' by (simp add: x_def field_simps mult_le_cancel_left1)
  with S52' have x52: "x < 2 ^ 52" by simp
  have p52: "p2 52 = 2 ^ 52" by (simp add: p2_def)
  from x0 x52 have "\<bar>x\<bar> < p2 (51 + 1)" by (simp add: p52)
  from fl_err(1) [OF this] have fx: "fl x = Fin (fl_val x)" by simp
  have total: "foldl (\<lambda>sum a. num_add sum (num_abs (timingOffset a))) (Fin 0) lg = Fin (of_int S)"
    using sum_abs_offsets [OF offs, of 0] S52 by (simp add: S_def)
  have nz: "real (length lg) \<noteq> 0" using ne by simp
  have "averageTimingOffset lg = num_round (fl (of_int S / real (length lg)))"
    using ne by (simp add: averageTimingOffset_def total)
  also have "of_int S / real (length lg) = x" by (simp add: x_def n_def)
  finally have avg: "averageTimingOffset lg = Fin (of_int \<lfloor>fl_val x + 1 / 2\<rfloor>)"
    by (simp add: fx)
  have err: "\<bar>fl_val x - x\<bar> < 1 / (2 * of_int n)"
  proof (cases "- 1074 < quantum x")
    case True
    from x0 x52 have hx: "\<bar>x\<bar> < p2 1024"
      using p2_strict [of 52 1024] by (simp add: p52)
    from quantum_lower [OF hx True] x0 have "p2 (quantum x + 52) \<le> x" by simp
    moreover have "p2 (quantum x + 52) = p2 (quantum x - 1) * 2 ^ 53"
    proof -
      have "p2 (quantum x + 52) = p2 (quantum x - 1 + 53)"
        by (rule arg_cong [where f = p2]) simp
      also have "\<dots> = p2 (quantum x - 1) * p2 53" by (rule p2_add)
      also have "p2 53 = 2 ^ 53" by (simp add: p2_def)
      finally show ?thesis .
    qed
    ultimately have "p2 (quantum x - 1) * 2 ^ 53 \<le> x" by simp
    then have "p2 (quantum x - 1) \<le> x / 2 ^ 53" by (simp add: field_simps)
    also have "\<dots> = of_int S / (of_int n * 2 ^ 53)" by (simp add: x_def)
    also have "\<dots> < 2 ^ 52 / (of_int n * 2 ^ 53)"
      using S52' n by (intro divide_strict_right_mono) simp_all
    also have "\<dots> = 1 / (2 * of_int n)" by simp
    finally show ?thesis using fl_val_err [of x] by linarith
  next
    case False
    then have "p2 (quantum x - 1) \<le> p2 (- 33)" by (intro p2_mono) simp
    also have "\<dots> = 1 / 2 ^ 33" by (simp add: p2_def power_int_minus_divide)
    also have "\<dots> < 1 / (2 * of_int n)"
    proof -
      from len have "n < 2 ^ 32" by (simp add: n_def)
      then have "(of_int n :: real) < 2 ^ 32" by (simp add: of_int_less_numeral_power_cancel_iff)
      then have "2 * (of_int n :: real) < 2 ^ 33" by simp
      with n show ?thesis by (intro divide_strict_left_mono) simp_all
    qed
    finally show ?thesis using fl_val_err [of x] by linarith
  qed
  have half: "fl_val x = x" if h: "x + 1 / 2 = of_int \<lfloor>x + 1 / 2\<rfloor>"
  proof -
    define j where "j = \<lfloor>x + 1 / 2\<rfloor>"
    from h have xj: "x = of_int (2 * j - 1) * p2 (- 1)"
      by (simp add: j_def p2_def power_int_minus_divide field_simps)
    from h x0 x52 have "(of_int 0 :: real) < of_int j" "(of_int j :: real) < of_int (2 ^ 52 + 1)"
      unfolding j_def by simp_all
    then have "0 < j" "j < 2 ^ 52 + 1"
      by (simp_all only: of_int_less_iff)
    then have m: "\<bar>2 * j - 1\<bar> \<le> 2 ^ 53" by simp
    from x0 x52 have hx: "\<bar>x\<bar> < p2 1024"
      using p2_strict [of 52 1024] by (simp add: p52)
    from fl_exact [OF xj m _ hx] have "fl x = Fin x" by simp
    with fx show ?thesis by simp
  qed
  have "\<lfloor>fl_val x + 1 / 2\<rfloor> = \<lfloor>of_int S / of_int n + 1 / 2 :: real\<rfloor>"
    using n err half unfolding x_def by (rule floor_half_stable)
  with avg show ?thesis
    by (simp add: round_def S_def n_def)
qed

text \<open>
  C2 (amended). For every log the hook can hold, with fewer than \<open>2^32\<close> entries as every
  array has: on the empty log both aggregates are 0. On a non-empty log the accuracy
  percentage is the rounded value of \<open>(correct / total) * 100\<close> with the quotient and the
  product each rounded to a double: a whole number within \<open>1/2 + 2^-45\<close> of
  \<open>100 * correct / total\<close>, which is 100 when every entry is correct and 0 when none is.
  The average timing offset is the rounded mean of the absolute offsets over all entries
  whenever the offsets are whole numbers whose absolute values sum to less than \<open>2^52\<close>;
  every incorrect entry has offset 0.
\<close>

theorem aggregates_of_log:
  assumes "reachable s" and "length (accuracy s) < 2 ^ 32"
  shows "(accuracy s = [] \<longrightarrow>
            accuracyPercentage (accuracy s) = Fin 0 \<and> averageTimingOffset (accuracy s) = Fin 0) \<and>
         (accuracy s \<noteq> [] \<longrightarrow>
            (\<exists>p::int. accuracyPercentage (accuracy s) = Fin (of_int p) \<and>
               \<bar>of_int p - 100 * real (length (filter isCorrect (accuracy s))) /
                              real (length (accuracy s))\<bar> \<le> 1 / 2 + 1 / 2 ^ 45) \<and>
            ((\<forall>e\<in>set (accuracy s). isCorrect e) \<longrightarrow> accuracyPercentage (accuracy s) = Fin 100) \<and>
            ((\<forall>e\<in>set (accuracy s). \<not> isCorrect e) \<longrightarrow> accuracyPercentage (accuracy s) = Fin 0) \<and>
            (\<forall>offs. map timingOffset (accuracy s) = map (\<lambda>k. Fin (of_int k)) offs \<and>
                    (\<Sum>k\<leftarrow>offs. \<bar>k\<bar>) < 2 ^ 52 \<longrightarrow>
               averageTimingOffset (accuracy s) =
                 Fin (of_int (round (real_of_int (\<Sum>k\<leftarrow>offs. \<bar>k\<bar>) /
                                     real (length (accuracy s))))))) \<and>
         (\<forall>e\<in>set (accuracy s). \<not> isCorrect e \<longrightarrow> timingOffset e = Fin 0)"
proof -
  note inv = reachable_log [OF assms(1)]
  have empty: "accuracy s = [] \<longrightarrow>
            accuracyPercentage (accuracy s) = Fin 0 \<and> averageTimingOffset (accuracy s) = Fin 0"
    by (simp add: accuracyPercentage_def averageTimingOffset_def)
  have avg: "averageTimingOffset (accuracy s) =
                 Fin (of_int (round (real_of_int (\<Sum>k\<leftarrow>offs. \<bar>k\<bar>) / real (length (accuracy s)))))"
    if "accuracy s \<noteq> []" "map timingOffset (accuracy s) = map (\<lambda>k. Fin (of_int k)) offs"
      "(\<Sum>k\<leftarrow>offs. \<bar>k\<bar>) < 2 ^ 52" for offs
    using that(2,1,3) assms(2) by (rule average_rounded_mean)
  from empty avg inv percentage_bound [of "accuracy s"]
    percentage_all_correct [of "accuracy s"] percentage_none_correct [of "accuracy s"]
  show ?thesis by blast
qed


lemma example_state_log:
  "accuracy example_state =
     [\<lparr>noteId = ''note-1-0'', expectedNote = Fin 60, actualNote = Fin 60,
       timingOffset = Fin 5000000, isCorrect = True\<rparr>,
      \<lparr>noteId = ''wrong-1700'', expectedNote = Fin (- 1), actualNote = Fin 61,
       timingOffset = Fin 0, isCorrect = False\<rparr>]"
  by (simp add: example_state_def handleMIDIMessage_def is_note_on_def example_press_def
      example_options_def example_expected_def initial_midi_state_def matches_def
      num_sub_def strict_eq_def byte_num_def show_nat_def show_nat_aux.simps digit_char_def)

theorem aggregates_of_log_witness:
  "reachable example_state \<and> length (accuracy example_state) < 2 ^ 32 \<and>
   accuracy example_state \<noteq> [] \<and>
   (\<exists>p::int. accuracyPercentage (accuracy example_state) = Fin (of_int p) \<and>
      \<bar>of_int p - (50 :: real)\<bar> \<le> 1 / 2 + 1 / 2 ^ 45) \<and>
   averageTimingOffset (accuracy example_state) = Fin 2500000"
proof -
  have "reachable initial_midi_state"
    by (rule r_init) (simp_all add: initial_midi_state_def)
  then have r: "reachable example_state"
    unfolding example_state_def by (intro r_message)
  have len: "length (accuracy example_state) < 2 ^ 32"
    by (simp add: example_state_log)
  have ne: "accuracy example_state \<noteq> []"
    by (simp add: example_state_log)
  note c = aggregates_of_log [OF r len]
  from c ne have "\<exists>p::int. accuracyPercentage (accuracy example_state) = Fin (of_int p) \<and>
      \<bar>of_int p - 100 * real (length (filter isCorrect (accuracy example_state))) /
                     real (length (accuracy example_state))\<bar> \<le> 1 / 2 + 1 / 2 ^ 45"
    by blast
  then have p: "\<exists>p::int. accuracyPercentage (accuracy example_state) = Fin (of_int p) \<and>
      \<bar>of_int p - (50 :: real)\<bar> \<le> 1 / 2 + 1 / 2 ^ 45"
    by (simp add: example_state_log)
  have o: "map timingOffset (accuracy example_state) = map (\<lambda>k. Fin (of_int k)) [5000000, 0] \<and>
      (\<Sum>k\<leftarrow>[5000000, 0 :: int]. \<bar>k\<bar>) < 2 ^ 52"
    by (simp add: example_state_log)
  from c ne have "\<forall>offs. map timingOffset (accuracy example_state) = map (\<lambda>k. Fin (of_int k)) offs \<and>
                    (\<Sum>k\<leftarrow>offs. \<bar>k\<bar>) < 2 ^ 52 \<longrightarrow>
               averageTimingOffset (accuracy example_state) =
                 Fin (of_int (round (real_of_int (\<Sum>k\<leftarrow>offs. \<bar>k\<bar>) /
                                     real (length (accuracy example_state)))))"
    by blast
  with o have "averageTimingOffset (accuracy example_state) =
                 Fin (of_int (round (real_of_int (\<Sum>k\<leftarrow>[5000000, 0]. \<bar>k\<bar>) /
                                     real (length (accuracy example_state)))))"
    by blast
  then have "averageTimingOffset (accuracy example_state) = Fin 2500000"
    by (simp add: example_state_log)
  with r len ne p show ?thesis by blast
qed

text \<open>
  Twenty-three correct presses and seventeen wrong ones. The quotient \<open>23 / 40\<close> rounds to a
  double just below \<open>0.575\<close>, its product with 100 to one just below \<open>57.5\<close>, and the
  percentage is 57, where \<open>100 * 23 / 40\<close> rounds to 58.
\<close>

lemma handle_repeated:
  assumes "is_note_on d" "byte_at d 1 = Some nt" "expectedNotes options = Some ens"
    "currentTime options = Some t"
  shows "accuracy ((handleMIDIMessage options perf_now date_now d ^^ k) s) =
           accuracy s @ replicate k
             (case find (matches t nt) ens of
                Some e \<Rightarrow>
                  \<lparr>noteId = id' e, expectedNote = pitch e, actualNote = byte_num nt,
                   timingOffset = num_round (num_mul (num_sub (Fin perf_now) (start e)) (Fin 1000)),
                   isCorrect = True\<rparr>
              | None \<Rightarrow>
                  \<lparr>noteId = ''wrong-'' @ show_nat date_now, expectedNote = Fin (- 1),
                   actualNote = byte_num nt, timingOffset = Fin 0, isCorrect = False\<rparr>)"
proof (induction k)
  case 0
  show ?case by simp
next
  case (Suc k)
  show ?case
    by (simp add: handle_note_on_accuracy [OF assms] Suc.IH replicate_append_same)
qed

lemma reachable_repeated:
  "reachable s \<Longrightarrow> reachable ((handleMIDIMessage options perf_now date_now d ^^ k) s)"
  by (induction k) (simp_all add: r_message)

lemma tally_state_counts:
  "length (filter isCorrect (accuracy tally_state)) = 23" "length (accuracy tally_state) = 40"
proof -
  have on1: "is_note_on example_press" and on2: "is_note_on example_wrong_press"
    by (simp_all add: is_note_on_def example_press_def example_wrong_press_def)
  have b1: "byte_at example_press 1 = Some 60" and b2: "byte_at example_wrong_press 1 = Some 61"
    by (simp_all add: example_press_def example_wrong_press_def)
  have e: "expectedNotes example_options = Some example_expected"
    and t: "currentTime example_options = Some (Fin 0)"
    by (simp_all add: example_options_def)
  have f1: "find (matches (Fin 0) 60) example_expected = Some (hd example_expected)"
    and f2: "find (matches (Fin 0) 61) example_expected = None"
    by (simp_all add: example_expected_def matches_def num_sub_def strict_eq_def byte_num_def)
  have i: "accuracy initial_midi_state = []" by (simp add: initial_midi_state_def)
  let ?S = "(handleMIDIMessage example_options 5000 1700 example_press ^^ 23) initial_midi_state"
  from handle_repeated [OF on1 b1 e t, where perf_now = 5000 and date_now = 1700 and k = 23
      and s = initial_midi_state]
  have a1: "length (accuracy ?S) = 23" "length (filter isCorrect (accuracy ?S)) = 23"
    by (simp_all add: f1 i)
  from handle_repeated [OF on2 b2 e t, where perf_now = 5000 and date_now = 1700 and k = 17
      and s = ?S]
  have a2: "accuracy tally_state = accuracy ?S @ replicate 17
      \<lparr>noteId = ''wrong-'' @ show_nat 1700, expectedNote = Fin (- 1),
        actualNote = byte_num 61, timingOffset = Fin 0, isCorrect = False\<rparr>"
    by (simp add: f2 tally_state_def)
  show "length (filter isCorrect (accuracy tally_state)) = 23"
    "length (accuracy tally_state) = 40"
    by (simp_all add: a2 a1)
qed

lemma fl_23_40: "fl (23 / 40) = Fin (2589569785738035 / 4503599627370496)"
proof -
  have "fl (23 / 40) = Fin (of_int 5179139571476070 * p2 (- 1 - 52))"
    by (rule fl_at) (simp_all add: p2_def power_int_minus_divide rhe_def)
  then show ?thesis by (simp add: p2_def power_int_minus_divide)
qed

lemma fl_23_40_100:
  "fl (2589569785738035 / 4503599627370496 * 100) = Fin (8092405580431359 / 140737488355328)"
proof -
  have "fl (2589569785738035 / 4503599627370496 * 100) =
          Fin (of_int 8092405580431359 * p2 (5 - 52))"
    by (rule fl_at) (simp_all add: p2_def power_int_minus_divide rhe_def)
  then show ?thesis by (simp add: p2_def power_int_minus_divide)
qed

theorem percentage_23_of_40_counterexample:
  "reachable tally_state \<and>
   length (filter isCorrect (accuracy tally_state)) = 23 \<and>
   length (accuracy tally_state) = 40 \<and>
   accuracyPercentage (accuracy tally_state) = Fin 57 \<and>
   round (100 * 23 / 40 :: real) = 58"
proof -
  have "reachable initial_midi_state"
    by (rule r_init) (simp_all add: initial_midi_state_def)
  then have r: "reachable tally_state"
    unfolding tally_state_def by (intro reachable_repeated)
  have ne: "accuracy tally_state \<noteq> []"
    using tally_state_counts(2) by auto
  have "accuracyPercentage (accuracy tally_state) =
          num_round (num_mul (num_div (Fin 23) (Fin 40)) (Fin 100))"
    using ne by (simp add: accuracyPercentage_def tally_state_counts)
  also have "\<dots> = num_round (num_mul (Fin (2589569785738035 / 4503599627370496)) (Fin 100))"
    by (simp add: fl_23_40)
  also have "\<dots> = num_round (Fin (8092405580431359 / 140737488355328))"
    by (simp only: num_mul.simps fl_23_40_100)
  also have "\<dots> = Fin 57" by simp
  finally have p: "accuracyPercentage (accuracy tally_state) = Fin 57" .
  have "round (100 * 23 / 40 :: real) = 58" by (simp add: round_def)
  with r p tally_state_counts show ?thesis by simp
qed

text \<open>
  C8. \<open>resetStats\<close> empties the accuracy log and leaves every other state variable as it
  was; the held notes, and so the set of held pitches, are the same before and after.
\<close>

theorem resetStats_frame:
  "accuracy (resetStats s) = [] \<and>
   activeNotes (resetStats s) = activeNotes s \<and>
   note' ` set (activeNotes (resetStats s)) = note' ` set (activeNotes s) \<and>
   midiSupported (resetStats s) = midiSupported s \<and>
   midiAccess (resetStats s) = midiAccess s \<and>
   midiInputs (resetStats s) = midiInputs s \<and>
   selectedInput (resetStats s) = selectedInput s \<and>
   errorMessage (resetStats s) = errorMessage s"
  by (simp add: resetStats_def)

section \<open>Properties of the score hook\<close>

lemma num_le_trans: "num_le a b \<Longrightarrow> num_le b c \<Longrightarrow> num_le a c"
  by (cases a; cases b; cases c) simp_all

lemma num_lt_not_le: "num_lt c t \<Longrightarrow> \<not> num_le t c"
  by (cases c; cases t) simp_all

lemma clock_ok_zero: "clock_ok (Fin 0)"
  by (simp add: clock_ok_def)

lemma clock_ok_props:
  assumes "clock_ok c"
  shows "num_le (Fin 0) c" "num_le c c" "c \<noteq> NaN"
  using assms by (cases c; simp add: clock_ok_def)+

text \<open>
  Adding a non-negative duration never moves such a clock back: the clock is a double, the
  exact sum is not below it, and the rounding is monotone.
\<close>

lemma clock_add:
  assumes c: "clock_ok c" and d: "num_le (Fin 0) d"
  shows "clock_ok (num_add c d)" "num_le c (num_add c d)"
proof -
  have "clock_ok (num_add c d) \<and> num_le c (num_add c d)"
  proof (cases c)
    case (Fin a)
    with c have a: "0 \<le> a" "fl a = Fin a" by (simp_all add: clock_ok_def)
    show ?thesis
    proof (cases d)
      case (Fin b)
      with d have b: "0 \<le> b" by simp
      with a have ab: "0 \<le> a + b" "a \<le> a + b" by simp_all
      from fl_mono_nonneg [OF a(1) ab(2)] a(2) have le: "num_le (Fin a) (fl (a + b))" by simp
      from fl_cases_nonneg [OF ab(1)] have "clock_ok (fl (a + b))"
      proof
        assume "fl (a + b) = PInf"
        then show ?thesis by (simp add: clock_ok_def)
      next
        assume h: "fl (a + b) = Fin (fl_val (a + b)) \<and> 0 \<le> fl_val (a + b) \<and>
          fl_val (a + b) < p2 1024 \<and> a + b < p2 1024"
        then have "fl (fl_val (a + b)) = Fin (fl_val (a + b))"
          using fl_idem [of "a + b" "fl_val (a + b)"] by simp
        with h show ?thesis by (simp add: clock_ok_def)
      qed
      with le show ?thesis by (simp add: \<open>c = Fin a\<close> \<open>d = Fin b\<close>)
    next
      case PInf
      with \<open>c = Fin a\<close> show ?thesis by (simp add: clock_ok_def)
    next
      case NInf
      with d show ?thesis by simp
    next
      case NaN
      with d show ?thesis by simp
    qed
  next
    case PInf
    with d show ?thesis by (cases d) (simp_all add: clock_ok_def)
  next
    case NInf
    with c show ?thesis by (simp add: clock_ok_def)
  next
    case NaN
    with c show ?thesis by (simp add: clock_ok_def)
  qed
  then show "clock_ok (num_add c d)" "num_le c (num_add c d)" by simp_all
qed

lemma parse_note_fields:
  assumes "parse_note tmp dv mn idx now el = Some n"
  shows "start n = now" and "end' n = num_add now (duration n)" and "\<not> has_rest el"
    and "measure n = mn"
    and "\<exists>dt. duration_text el = Some dt \<and> dt \<noteq> [] \<and> duration n = durationInSeconds tmp dv dt"
  using assms
  by (auto simp: parse_note_def Let_def missing_def split: if_splits option.splits)

lemma parse_notes_append:
  "parse_notes tmp dv mn idx els (ns, now) =
     (ns @ fst (parse_notes tmp dv mn idx els ([], now)),
      snd (parse_notes tmp dv mn idx els ([], now)))"
proof (induction els arbitrary: idx ns now)
  case Nil
  show ?case by simp
next
  case (Cons el els)
  show ?case
  proof (cases "parse_note tmp dv mn idx now el")
    case None
    then show ?thesis using Cons.IH [of "Suc idx" ns now] by simp
  next
    case (Some n)
    let ?now = "num_add now (duration n)"
    have "parse_notes tmp dv mn (Suc idx) els (ns @ [n], ?now) =
            ((ns @ [n]) @ fst (parse_notes tmp dv mn (Suc idx) els ([], ?now)),
             snd (parse_notes tmp dv mn (Suc idx) els ([], ?now)))"
      by (rule Cons.IH)
    moreover have "parse_notes tmp dv mn (Suc idx) els ([n], ?now) =
            ([n] @ fst (parse_notes tmp dv mn (Suc idx) els ([], ?now)),
             snd (parse_notes tmp dv mn (Suc idx) els ([], ?now)))"
      using Cons.IH [of "Suc idx" "[n]" ?now] by simp
    ultimately show ?thesis using Some by simp
  qed
qed

lemma parse_notes_clock:
  "snd (parse_notes tmp dv mn idx els (ns, now)) =
     foldl num_add now (map duration (fst (parse_notes tmp dv mn idx els ([], now))))"
proof (induction els arbitrary: idx ns now)
  case Nil
  show ?case by simp
next
  case (Cons el els)
  show ?case
  proof (cases "parse_note tmp dv mn idx now el")
    case None
    then show ?thesis using Cons.IH [of "Suc idx" ns now] Cons.IH [of "Suc idx" "[]" now] by simp
  next
    case (Some n)
    let ?now = "num_add now (duration n)"
    note a = parse_notes_append [of tmp dv mn "Suc idx" els "[n]" ?now]
    from Some show ?thesis
      using Cons.IH [of "Suc idx" "ns @ [n]" ?now] a by simp
  qed
qed

lemma parse_notes_all_rests:
  "\<forall>el\<in>set els. has_rest el \<Longrightarrow> parse_notes tmp dv mn idx els st = st"
  by (induction els arbitrary: idx st) (auto simp: parse_note_def)

lemma parse_measures_runs:
  "parse_measures tmp mels (ns, ms, now) =
     (ns @ concat (map fst (measure_runs tmp mels now)),
      ms @ map snd (measure_runs tmp mels now),
      final_clock now (measure_runs tmp mels now))"
proof (induction mels arbitrary: ns ms now)
  case Nil
  show ?case by (simp add: final_clock_def)
next
  case (Cons mel mels)
  let ?mn = "parseInt10 (opt_or (number_attr mel) ''1'')"
  let ?r = "parse_notes tmp (read_divisions mel) ?mn 0 (note_els mel) ([], now)"
  have a: "parse_notes tmp (read_divisions mel) ?mn 0 (note_els mel) (ns, now) =
             (ns @ fst ?r, snd ?r)"
    by (rule parse_notes_append)
  show ?case
    using Cons.IH [of "ns @ fst ?r" "ms @ [\<lparr>mt_measure = ?mn, mt_start = now, mt_end = snd ?r\<rparr>]" "snd ?r"]
    by (simp add: a Let_def split_beta final_clock_def)
qed


lemmas parser_eval =
  parseMusicXML_def read_tempo_def read_divisions_def parse_note_def durationInSeconds_def
  baseNote_def pitchMap_def missing_def opt_or_def str_or_def parseInt10_def is_space_def
  is_digit_def digits_val_def digit_val_def show_int_def show_nat_def show_nat_aux.simps
  digit_char_def pitched_def rest_el_def Let_def

lemma example_doc_parsed:
  "parseMusicXML example_doc =
     \<lparr>notes' =
        [\<lparr>id' = ''note-1-0'', pitch = Fin 60, start = Fin 0, end' = Fin 1, duration = Fin 1,
          measure = Fin 1, hand = Right, finger = None\<rparr>,
         \<lparr>id' = ''note-1-2'', pitch = Fin 64, start = Fin 1, end' = Fin 3, duration = Fin 2,
          measure = Fin 1, hand = Right, finger = None\<rparr>,
         \<lparr>id' = ''note-3-0'', pitch = Fin 55, start = Fin 3, end' = Fin 4, duration = Fin 1,
          measure = Fin 3, hand = Left, finger = None\<rparr>],
      measures =
        [\<lparr>mt_measure = Fin 1, mt_start = Fin 0, mt_end = Fin 3\<rparr>,
         \<lparr>mt_measure = Fin 2, mt_start = Fin 3, mt_end = Fin 3\<rparr>,
         \<lparr>mt_measure = Fin 3, mt_start = Fin 3, mt_end = Fin 4\<rparr>],
      title = ''Nada Sousou'', composer = ''Unknown'', tempo = Fin 60\<rparr>"
  by (simp add: example_doc_def parser_eval)

lemma negative_doc_parsed:
  "parseMusicXML negative_doc =
     \<lparr>notes' =
        [\<lparr>id' = ''note-1-0'', pitch = Fin 60, start = Fin 0, end' = Fin 1, duration = Fin 1,
          measure = Fin 1, hand = Right, finger = None\<rparr>,
         \<lparr>id' = ''note-1-1'', pitch = Fin 60, start = Fin 1, end' = Fin 0, duration = Fin (- 1),
          measure = Fin 1, hand = Right, finger = None\<rparr>],
      measures = [\<lparr>mt_measure = Fin 1, mt_start = Fin 0, mt_end = Fin 0\<rparr>],
      title = ''Untitled'', composer = ''Unknown'', tempo = Fin 60\<rparr>"
  by (simp add: negative_doc_def parser_eval)

lemma fast_doc_parsed:
  "parseMusicXML fast_doc =
     \<lparr>notes' =
        [\<lparr>id' = ''note-1-0'', pitch = Fin 60, start = Fin 0, end' = NaN, duration = NaN,
          measure = Fin 1, hand = Right, finger = None\<rparr>],
      measures =
        [\<lparr>mt_measure = Fin 1, mt_start = Fin 0, mt_end = NaN\<rparr>,
         \<lparr>mt_measure = Fin 2, mt_start = NaN, mt_end = NaN\<rparr>],
      title = ''Untitled'', composer = ''Unknown'', tempo = NaN\<rparr>"
  by (simp add: fast_doc_def parser_eval)

lemma backwards_doc_parsed:
  "parseMusicXML backwards_doc =
     \<lparr>notes' =
        [\<lparr>id' = ''note-1-0'', pitch = Fin 60, start = Fin 0, end' = Fin 2, duration = Fin 2,
          measure = Fin 1, hand = Right, finger = None\<rparr>,
         \<lparr>id' = ''note-2-0'', pitch = Fin 62, start = Fin 2, end' = Fin 1, duration = Fin (- 1),
          measure = Fin 2, hand = Right, finger = None\<rparr>,
         \<lparr>id' = ''note-3-0'', pitch = Fin 64, start = Fin 1, end' = Fin 2, duration = Fin 1,
          measure = Fin 3, hand = Right, finger = None\<rparr>],
      measures =
        [\<lparr>mt_measure = Fin 1, mt_start = Fin 0, mt_end = Fin 2\<rparr>,
         \<lparr>mt_measure = Fin 2, mt_start = Fin 2, mt_end = Fin 1\<rparr>,
         \<lparr>mt_measure = Fin 3, mt_start = Fin 1, mt_end = Fin 2\<rparr>],
      title = ''Untitled'', composer = ''Unknown'', tempo = Fin 60\<rparr>"
  by (simp add: backwards_doc_def parser_eval)

lemma pickup_doc_parsed:
  "parseMusicXML pickup_doc =
     \<lparr>notes' =
        [\<lparr>id' = ''note-0-0'', pitch = Fin 60, start = Fin 0, end' = Fin 1, duration = Fin 1,
          measure = Fin 0, hand = Right, finger = None\<rparr>],
      measures = [\<lparr>mt_measure = Fin 0, mt_start = Fin 0, mt_end = Fin 1\<rparr>],
      title = ''Untitled'', composer = ''Unknown'', tempo = Fin 60\<rparr>"
  by (simp add: pickup_doc_def parser_eval)


lemma final_clock_Cons: "final_clock now (r # rs) = final_clock (mt_end (snd r)) rs"
  by (simp add: final_clock_def)

lemma runs_length: "length (measure_runs tmp mels now) = length mels"
  by (induction mels arbitrary: now) (simp_all add: Let_def split_beta)

lemma runs_first: "measure_runs tmp mels now \<noteq> [] \<Longrightarrow> mt_start (snd (measure_runs tmp mels now ! 0)) = now"
  by (cases mels) (simp_all add: Let_def split_beta)

lemma measure_runs_Cons:
  "measure_runs tmp (mel # mels) now =
     (fst (parse_notes tmp (read_divisions mel) (parseInt10 (opt_or (number_attr mel) ''1'')) 0
             (note_els mel) ([], now)),
      \<lparr>mt_measure = parseInt10 (opt_or (number_attr mel) ''1''), mt_start = now,
        mt_end = snd (parse_notes tmp (read_divisions mel)
                        (parseInt10 (opt_or (number_attr mel) ''1'')) 0 (note_els mel) ([], now))\<rparr>) #
     measure_runs tmp mels
       (snd (parse_notes tmp (read_divisions mel) (parseInt10 (opt_or (number_attr mel) ''1'')) 0
               (note_els mel) ([], now)))"
  by (simp add: Let_def split_beta)

lemma runs_chain:
  "Suc i < length (measure_runs tmp mels now) \<Longrightarrow>
     mt_end (snd (measure_runs tmp mels now ! i)) = mt_start (snd (measure_runs tmp mels now ! Suc i))"
proof (induction mels arbitrary: now i)
  case Nil
  then show ?case by simp
next
  case (Cons mel mels)
  let ?mn = "parseInt10 (opt_or (number_attr mel) ''1'')"
  let ?now = "snd (parse_notes tmp (read_divisions mel) ?mn 0 (note_els mel) ([], now))"
  from Cons.prems have len: "i < length (measure_runs tmp mels ?now)"
    by (simp add: measure_runs_Cons del: measure_runs.simps)
  show ?case
  proof (cases i)
    case 0
    from len have "measure_runs tmp mels ?now \<noteq> []" by auto
    from runs_first [OF this] 0 show ?thesis
      by (simp add: measure_runs_Cons del: measure_runs.simps)
  next
    case (Suc k)
    with len have "Suc k < length (measure_runs tmp mels ?now)" by simp
    from Cons.IH [OF this] Suc show ?thesis
      by (simp add: measure_runs_Cons del: measure_runs.simps)
  qed
qed

lemma parsed_by_runs:
  "notes' (parseMusicXML doc) = concat (map fst (measure_runs (read_tempo doc) (measure_els doc) (Fin 0)))"
  "measures (parseMusicXML doc) = map snd (measure_runs (read_tempo doc) (measure_els doc) (Fin 0))"
  "tempo (parseMusicXML doc) = read_tempo doc"
  by (simp_all add: parseMusicXML_def parse_measures_runs Let_def)

lemma fetched_data:
  "musicData (fetchAndParseMusicXML (Responded True statusText doc) s) = Some md \<Longrightarrow>
     md = parseMusicXML doc"
  by (simp add: fetchAndParseMusicXML_def)

lemma parse_notes_Cons_fresh:
  "parse_notes tmp dv mn idx (el # els) ([], now) =
     (case parse_note tmp dv mn idx now el of
        None \<Rightarrow> parse_notes tmp dv mn (Suc idx) els ([], now)
      | Some n \<Rightarrow>
          (n # fst (parse_notes tmp dv mn (Suc idx) els ([], num_add now (duration n))),
           snd (parse_notes tmp dv mn (Suc idx) els ([], num_add now (duration n)))))"
proof (cases "parse_note tmp dv mn idx now el")
  case None
  then show ?thesis by simp
next
  case (Some n)
  then show ?thesis
    using parse_notes_append [of tmp dv mn "Suc idx" els "[n]" "num_add now (duration n)"]
    by simp
qed

lemma parse_notes_ends:
  assumes "clock_ok now"
    and "\<forall>n\<in>set (fst (parse_notes tmp dv mn idx els ([], now))). num_le (Fin 0) (duration n)"
  shows "clock_ok (snd (parse_notes tmp dv mn idx els ([], now))) \<and>
         num_le now (snd (parse_notes tmp dv mn idx els ([], now))) \<and>
         (\<forall>n\<in>set (fst (parse_notes tmp dv mn idx els ([], now))).
            num_le (end' n) (snd (parse_notes tmp dv mn idx els ([], now))))"
  using assms
proof (induction els arbitrary: idx now)
  case Nil
  then show ?case by (simp add: clock_ok_props)
next
  case (Cons el els)
  show ?case
  proof (cases "parse_note tmp dv mn idx now el")
    case None
    then have eq: "parse_notes tmp dv mn idx (el # els) ([], now) =
        parse_notes tmp dv mn (Suc idx) els ([], now)"
      by simp
    from Cons.IH [OF Cons.prems(1) Cons.prems(2) [unfolded eq]] show ?thesis
      unfolding eq .
  next
    case (Some n)
    let ?now = "num_add now (duration n)"
    let ?rest = "parse_notes tmp dv mn (Suc idx) els ([], ?now)"
    from Some have eq: "parse_notes tmp dv mn idx (el # els) ([], now) = (n # fst ?rest, snd ?rest)"
      by (simp add: parse_notes_Cons_fresh del: parse_notes.simps)
    from Cons.prems(2) [unfolded eq] have dn: "num_le (Fin 0) (duration n)"
      and drest: "\<forall>m\<in>set (fst ?rest). num_le (Fin 0) (duration m)"
      by simp_all
    from clock_add [OF Cons.prems(1) dn]
    have ok: "clock_ok ?now" and step: "num_le now ?now" by simp_all
    from Cons.IH [OF ok drest]
    have ok': "clock_ok (snd ?rest)" and le: "num_le ?now (snd ?rest)"
      and ends: "\<forall>m\<in>set (fst ?rest). num_le (end' m) (snd ?rest)" by simp_all
    from parse_note_fields(2) [OF Some] have "end' n = ?now" .
    with le have "num_le (end' n) (snd ?rest)" by simp
    moreover from step le have "num_le now (snd ?rest)" by (rule num_le_trans)
    ultimately show ?thesis unfolding eq using ends ok' by simp
  qed
qed

lemma runs_ends:
  assumes "clock_ok now"
    and "\<forall>n\<in>set (concat (map fst (measure_runs tmp mels now))). num_le (Fin 0) (duration n)"
  shows "num_le now (final_clock now (measure_runs tmp mels now)) \<and>
         (\<forall>n\<in>set (concat (map fst (measure_runs tmp mels now))).
            num_le (end' n) (final_clock now (measure_runs tmp mels now)))"
  using assms
proof (induction mels arbitrary: now)
  case Nil
  then show ?case by (simp add: final_clock_def clock_ok_props)
next
  case (Cons mel mels)
  let ?mn = "parseInt10 (opt_or (number_attr mel) ''1'')"
  let ?p = "parse_notes tmp (read_divisions mel) ?mn 0 (note_els mel) ([], now)"
  let ?R = "measure_runs tmp mels (snd ?p)"
  have eq: "measure_runs tmp (mel # mels) now =
      (fst ?p, \<lparr>mt_measure = ?mn, mt_start = now, mt_end = snd ?p\<rparr>) # ?R"
    by (rule measure_runs_Cons)
  from Cons.prems(2) [unfolded eq] have d1: "\<forall>n\<in>set (fst ?p). num_le (Fin 0) (duration n)"
    and d2: "\<forall>n\<in>set (concat (map fst ?R)). num_le (Fin 0) (duration n)"
    by simp_all
  from parse_notes_ends [OF Cons.prems(1) d1]
  have ok: "clock_ok (snd ?p)" and le1: "num_le now (snd ?p)"
    and e1: "\<forall>n\<in>set (fst ?p). num_le (end' n) (snd ?p)"
    by simp_all
  from Cons.IH [OF ok d2]
  have le2: "num_le (snd ?p) (final_clock (snd ?p) ?R)"
    and e2: "\<forall>n\<in>set (concat (map fst ?R)). num_le (end' n) (final_clock (snd ?p) ?R)"
    by simp_all
  have fc: "final_clock now (measure_runs tmp (mel # mels) now) = final_clock (snd ?p) ?R"
    unfolding eq by (simp add: final_clock_Cons)
  from e1 le2 have e1': "\<forall>n\<in>set (fst ?p). num_le (end' n) (final_clock (snd ?p) ?R)"
    using num_le_trans by blast
  from le1 le2 have le: "num_le now (final_clock (snd ?p) ?R)" by (rule num_le_trans)
  show ?case unfolding fc unfolding eq using e1' le e2 by auto
qed

text \<open>
  With durations that are not negative, every measure starts at a clock value that is a
  non-negative double or \<open>+\<infinity>\<close> and does not end before it starts.
\<close>

lemma runs_ordered:
  assumes "clock_ok now"
    and "\<forall>n\<in>set (concat (map fst (measure_runs tmp mels now))). num_le (Fin 0) (duration n)"
    and "i < length (measure_runs tmp mels now)"
  shows "clock_ok (mt_start (snd (measure_runs tmp mels now ! i))) \<and>
         clock_ok (mt_end (snd (measure_runs tmp mels now ! i))) \<and>
         num_le (mt_start (snd (measure_runs tmp mels now ! i)))
                (mt_end (snd (measure_runs tmp mels now ! i)))"
  using assms
proof (induction mels arbitrary: now i)
  case Nil
  then show ?case by simp
next
  case (Cons mel mels)
  let ?mn = "parseInt10 (opt_or (number_attr mel) ''1'')"
  let ?p = "parse_notes tmp (read_divisions mel) ?mn 0 (note_els mel) ([], now)"
  let ?R = "measure_runs tmp mels (snd ?p)"
  have eq: "measure_runs tmp (mel # mels) now =
      (fst ?p, \<lparr>mt_measure = ?mn, mt_start = now, mt_end = snd ?p\<rparr>) # ?R"
    by (rule measure_runs_Cons)
  from Cons.prems(2) [unfolded eq] have d1: "\<forall>n\<in>set (fst ?p). num_le (Fin 0) (duration n)"
    and d2: "\<forall>n\<in>set (concat (map fst ?R)). num_le (Fin 0) (duration n)"
    by simp_all
  from parse_notes_ends [OF Cons.prems(1) d1]
  have ok: "clock_ok (snd ?p)" and le1: "num_le now (snd ?p)" by simp_all
  show ?case
  proof (cases i)
    case 0
    with Cons.prems(1) ok le1 show ?thesis unfolding eq by simp
  next
    case (Suc k)
    with Cons.prems(3) [unfolded eq] have "k < length ?R" by simp
    from Cons.IH [OF ok d2 this] Suc show ?thesis unfolding eq by simp
  qed
qed

lemma runs_apart:
  assumes "clock_ok now"
    and "\<forall>n\<in>set (concat (map fst (measure_runs tmp mels now))). num_le (Fin 0) (duration n)"
    and "i < j" and "j < length (measure_runs tmp mels now)"
  shows "num_le (mt_end (snd (measure_runs tmp mels now ! i)))
                (mt_start (snd (measure_runs tmp mels now ! j)))"
  using assms(3,4)
proof (induction j)
  case 0
  then show ?case by simp
next
  case (Suc j)
  let ?R = "measure_runs tmp mels now"
  from Suc.prems have j: "j < length ?R" by simp
  from runs_chain [OF Suc.prems(2)] have ch: "mt_end (snd (?R ! j)) = mt_start (snd (?R ! Suc j))" .
  from runs_ordered [OF assms(1,2) j]
  have o: "clock_ok (mt_end (snd (?R ! j)))" "num_le (mt_start (snd (?R ! j))) (mt_end (snd (?R ! j)))"
    by simp_all
  show ?case
  proof (cases "i = j")
    case True
    with o(1) ch show ?thesis by (simp add: clock_ok_props)
  next
    case False
    with Suc.prems have "i < j" by simp
    from Suc.IH [OF this j] o(2) have "num_le (mt_end (snd (?R ! i))) (mt_end (snd (?R ! j)))"
      by (rule num_le_trans)
    with ch show ?thesis by simp
  qed
qed

lemma last_measure_end:
  "measures (parseMusicXML doc) \<noteq> [] \<Longrightarrow>
     mt_end (last (measures (parseMusicXML doc))) =
       final_clock (Fin 0) (measure_runs (read_tempo doc) (measure_els doc) (Fin 0))"
  by (simp add: parsed_by_runs final_clock_def last_map)

text \<open>
  C3 (amended). After a successful load the first measure starts at \<open>0\<close> and every measure
  starts at the clock value the one before it ended with; the comparison \<open>==\<close> of the two
  holds exactly when that value is not NaN. When no note of the score has a negative duration
  (or a NaN one), \<open>measure[i].end == measure[i+1].start\<close> holds for every consecutive pair,
  no measure ends before it starts and no measure starts before an earlier one has ended.
\<close>

theorem measures_contiguous:
  assumes "musicData (fetchAndParseMusicXML (Responded True statusText doc) s) = Some md"
  shows "(measures md \<noteq> [] \<longrightarrow> mt_start (measures md ! 0) = Fin 0) \<and>
         (\<forall>i. Suc i < length (measures md) \<longrightarrow>
            mt_end (measures md ! i) = mt_start (measures md ! Suc i) \<and>
            strict_eq (mt_end (measures md ! i)) (mt_start (measures md ! Suc i)) =
              (mt_end (measures md ! i) \<noteq> NaN)) \<and>
         ((\<forall>n\<in>set (notes' md). num_le (Fin 0) (duration n)) \<longrightarrow>
            (\<forall>i. Suc i < length (measures md) \<longrightarrow>
               strict_eq (mt_end (measures md ! i)) (mt_start (measures md ! Suc i))) \<and>
            (\<forall>i. i < length (measures md) \<longrightarrow>
               num_le (mt_start (measures md ! i)) (mt_end (measures md ! i))) \<and>
            (\<forall>i j. i < j \<and> j < length (measures md) \<longrightarrow>
               num_le (mt_end (measures md ! i)) (mt_start (measures md ! j))))"
proof -
  let ?R = "measure_runs (read_tempo doc) (measure_els doc) (Fin 0)"
  from assms have md: "md = parseMusicXML doc" by (rule fetched_data)
  then have ms: "measures md = map snd ?R" and ns: "notes' md = concat (map fst ?R)"
    by (simp_all add: parsed_by_runs)
  have chain: "mt_end (measures md ! i) = mt_start (measures md ! Suc i)"
    if "Suc i < length (measures md)" for i
  proof -
    from that have "Suc i < length ?R" by (simp add: ms)
    from runs_chain [OF this] that show ?thesis by (simp add: ms)
  qed
  have first: "mt_start (measures md ! 0) = Fin 0" if "measures md \<noteq> []"
  proof -
    from that have "?R \<noteq> []" by (simp add: ms)
    from runs_first [OF this] this show ?thesis by (simp add: ms)
  qed
  have eqs: "mt_end (measures md ! i) = mt_start (measures md ! Suc i) \<and>
      strict_eq (mt_end (measures md ! i)) (mt_start (measures md ! Suc i)) =
        (mt_end (measures md ! i) \<noteq> NaN)"
    if "Suc i < length (measures md)" for i
    using chain [OF that] by (simp add: strict_eq_def)
  have ordered: "(\<forall>i. Suc i < length (measures md) \<longrightarrow>
               strict_eq (mt_end (measures md ! i)) (mt_start (measures md ! Suc i))) \<and>
            (\<forall>i. i < length (measures md) \<longrightarrow>
               num_le (mt_start (measures md ! i)) (mt_end (measures md ! i))) \<and>
            (\<forall>i j. i < j \<and> j < length (measures md) \<longrightarrow>
               num_le (mt_end (measures md ! i)) (mt_start (measures md ! j)))"
    if d: "\<forall>n\<in>set (notes' md). num_le (Fin 0) (duration n)"
  proof -
    from d have d': "\<forall>n\<in>set (concat (map fst ?R)). num_le (Fin 0) (duration n)"
      by (simp only: ns)
    have o: "clock_ok (mt_end (measures md ! i)) \<and>
        num_le (mt_start (measures md ! i)) (mt_end (measures md ! i))"
      if "i < length (measures md)" for i
    proof -
      from that have "i < length ?R" by (simp add: ms)
      from runs_ordered [OF clock_ok_zero d' this] this show ?thesis by (simp add: ms)
    qed
    have a: "strict_eq (mt_end (measures md ! i)) (mt_start (measures md ! Suc i))"
      if "Suc i < length (measures md)" for i
    proof -
      from that have "i < length (measures md)" by simp
      from o [OF this] have "mt_end (measures md ! i) \<noteq> NaN" by (simp add: clock_ok_props)
      with chain [OF that] show ?thesis by (simp add: strict_eq_def)
    qed
    have b: "num_le (mt_end (measures md ! i)) (mt_start (measures md ! j))"
      if "i < j \<and> j < length (measures md)" for i j
    proof -
      from that have ij: "i < j" and j: "j < length ?R" by (simp_all add: ms)
      from runs_apart [OF clock_ok_zero d' ij j] ij j show ?thesis by (simp add: ms)
    qed
    from a b o show ?thesis by blast
  qed
  from first eqs ordered show ?thesis by blast
qed

theorem measures_contiguous_witness:
  "musicData (fetchAndParseMusicXML (Responded True ''OK'' example_doc) example_xml_state) =
     Some (parseMusicXML example_doc) \<and>
   length (measures (parseMusicXML example_doc)) = 3 \<and>
   mt_start (measures (parseMusicXML example_doc) ! 0) = Fin 0 \<and>
   strict_eq (mt_end (measures (parseMusicXML example_doc) ! 0))
     (mt_start (measures (parseMusicXML example_doc) ! 1)) \<and>
   strict_eq (mt_end (measures (parseMusicXML example_doc) ! 1))
     (mt_start (measures (parseMusicXML example_doc) ! 2)) \<and>
   num_le (mt_start (measures (parseMusicXML example_doc) ! 0))
     (mt_end (measures (parseMusicXML example_doc) ! 0)) \<and>
   num_le (mt_start (measures (parseMusicXML example_doc) ! 1))
     (mt_end (measures (parseMusicXML example_doc) ! 1)) \<and>
   num_le (mt_start (measures (parseMusicXML example_doc) ! 2))
     (mt_end (measures (parseMusicXML example_doc) ! 2)) \<and>
   num_le (mt_end (measures (parseMusicXML example_doc) ! 0))
     (mt_start (measures (parseMusicXML example_doc) ! 2))"
proof -
  let ?ms = "measures (parseMusicXML example_doc)"
  have h: "musicData (fetchAndParseMusicXML (Responded True ''OK'' example_doc) example_xml_state) =
     Some (parseMusicXML example_doc)"
    by (simp add: fetchAndParseMusicXML_def)
  have len: "length ?ms = 3"
    by (simp add: example_doc_parsed)
  have d: "\<forall>n\<in>set (notes' (parseMusicXML example_doc)). num_le (Fin 0) (duration n)"
    by (simp add: example_doc_parsed)
  note c = measures_contiguous [OF h]
  from c len have s0: "mt_start (?ms ! 0) = Fin 0" by auto
  from c d have e: "\<forall>i. Suc i < length ?ms \<longrightarrow> strict_eq (mt_end (?ms ! i)) (mt_start (?ms ! Suc i))"
    and o: "\<forall>i. i < length ?ms \<longrightarrow> num_le (mt_start (?ms ! i)) (mt_end (?ms ! i))"
    and p: "\<forall>i j. i < j \<and> j < length ?ms \<longrightarrow> num_le (mt_end (?ms ! i)) (mt_start (?ms ! j))"
    by blast+
  from e [rule_format, of 0] e [rule_format, of 1] len
  have e01: "strict_eq (mt_end (?ms ! 0)) (mt_start (?ms ! 1))"
    and e12: "strict_eq (mt_end (?ms ! 1)) (mt_start (?ms ! 2))"
    by (simp_all add: numeral_2_eq_2)
  from o [rule_format, of 0] o [rule_format, of 1] o [rule_format, of 2] len
  have o0: "num_le (mt_start (?ms ! 0)) (mt_end (?ms ! 0))"
    and o1: "num_le (mt_start (?ms ! 1)) (mt_end (?ms ! 1))"
    and o2: "num_le (mt_start (?ms ! 2)) (mt_end (?ms ! 2))"
    by simp_all
  from p [rule_format, of 0 2] len have p02: "num_le (mt_end (?ms ! 0)) (mt_start (?ms ! 2))"
    by simp
  from h len s0 e01 e12 o0 o1 o2 p02 show ?thesis by simp
qed

text \<open>
  Without the condition on the durations the measures need not be ordered: a note entry with a
  negative duration value ends its measure before the measure starts, and the measure after it
  lies inside the first one. With a tempo that is not a number the clock is NaN after the first
  note, and \<open>measure[i].end == measure[i+1].start\<close> is false.
\<close>

theorem backwards_measures_counterexample:
  "musicData (fetchAndParseMusicXML (Responded True ''OK'' backwards_doc) example_xml_state) =
     Some (parseMusicXML backwards_doc) \<and>
   measures (parseMusicXML backwards_doc) =
     [\<lparr>mt_measure = Fin 1, mt_start = Fin 0, mt_end = Fin 2\<rparr>,
      \<lparr>mt_measure = Fin 2, mt_start = Fin 2, mt_end = Fin 1\<rparr>,
      \<lparr>mt_measure = Fin 3, mt_start = Fin 1, mt_end = Fin 2\<rparr>] \<and>
   num_lt (mt_end (measures (parseMusicXML backwards_doc) ! 1))
          (mt_start (measures (parseMusicXML backwards_doc) ! 1)) \<and>
   num_lt (mt_start (measures (parseMusicXML backwards_doc) ! 2))
          (mt_end (measures (parseMusicXML backwards_doc) ! 0)) \<and>
   musicData (fetchAndParseMusicXML (Responded True ''OK'' fast_doc) example_xml_state) =
     Some (parseMusicXML fast_doc) \<and>
   mt_end (measures (parseMusicXML fast_doc) ! 0) = NaN \<and>
   mt_start (measures (parseMusicXML fast_doc) ! 1) = NaN \<and>
   \<not> strict_eq (mt_end (measures (parseMusicXML fast_doc) ! 0))
                (mt_start (measures (parseMusicXML fast_doc) ! 1))"
  by (simp add: backwards_doc_parsed fast_doc_parsed fetchAndParseMusicXML_def strict_eq_def)

text \<open>
  C4 (amended). \<open>getActiveNotesAtTime\<close> returns, in score order, exactly the notes with
  \<open>start \<le> t \<le> end\<close>, both ends included. For a parsed score in which every note has a
  duration that is not negative, it returns no note for any \<open>t\<close> strictly after the end of
  the final measure.
\<close>

theorem active_notes_closed_interval:
  "getActiveNotesAtTime (Some md) t =
     filter (\<lambda>n. num_le (start n) t \<and> num_le t (end' n)) (notes' md) \<and>
   ((\<forall>n\<in>set (notes' (parseMusicXML doc)). num_le (Fin 0) (duration n)) \<longrightarrow>
    measures (parseMusicXML doc) \<noteq> [] \<longrightarrow>
    num_gt t (mt_end (last (measures (parseMusicXML doc)))) \<longrightarrow>
    getActiveNotesAtTime (Some (parseMusicXML doc)) t = [])"
proof -
  let ?R = "measure_runs (read_tempo doc) (measure_els doc) (Fin 0)"
  have a: "getActiveNotesAtTime (Some md) t =
     filter (\<lambda>n. num_le (start n) t \<and> num_le t (end' n)) (notes' md)"
    by (simp add: getActiveNotesAtTime_def num_ge_def)
  have b: "getActiveNotesAtTime (Some (parseMusicXML doc)) t = []"
    if d: "\<forall>n\<in>set (notes' (parseMusicXML doc)). num_le (Fin 0) (duration n)"
      and ne: "measures (parseMusicXML doc) \<noteq> []"
      and after: "num_gt t (mt_end (last (measures (parseMusicXML doc))))"
  proof -
    from d have "\<forall>n\<in>set (concat (map fst ?R)). num_le (Fin 0) (duration n)"
      by (simp add: parsed_by_runs)
    then have
      ends: "\<forall>n\<in>set (concat (map fst ?R)). num_le (end' n) (final_clock (Fin 0) ?R)"
      using runs_ends [OF clock_ok_zero, of "read_tempo doc" "measure_els doc"] by simp
    from after have lt: "num_lt (final_clock (Fin 0) ?R) t"
      by (simp add: num_gt_def last_measure_end [OF ne])
    have "\<not> num_le t (end' n)" if "n \<in> set (notes' (parseMusicXML doc))" for n
    proof
      assume "num_le t (end' n)"
      moreover from that have "n \<in> set (concat (map fst ?R))"
        by (simp only: parsed_by_runs)
      with ends have "num_le (end' n) (final_clock (Fin 0) ?R)" ..
      ultimately have "num_le t (final_clock (Fin 0) ?R)" by (rule num_le_trans)
      with num_lt_not_le [OF lt] show False by simp
    qed
    then show ?thesis
      by (simp add: getActiveNotesAtTime_def filter_empty_conv)
  qed
  from a b show ?thesis by blast
qed

theorem active_notes_closed_interval_witness:
  "getActiveNotesAtTime (Some (parseMusicXML example_doc)) (Fin 1) =
     filter (\<lambda>n. num_le (start n) (Fin 1) \<and> num_le (Fin 1) (end' n))
       (notes' (parseMusicXML example_doc)) \<and>
   length (getActiveNotesAtTime (Some (parseMusicXML example_doc)) (Fin 1)) = 2 \<and>
   measures (parseMusicXML example_doc) \<noteq> [] \<and>
   num_gt (Fin 5) (mt_end (last (measures (parseMusicXML example_doc)))) \<and>
   getActiveNotesAtTime (Some (parseMusicXML example_doc)) (Fin 5) = []"
proof -
  have h1: "\<forall>n\<in>set (notes' (parseMusicXML example_doc)). num_le (Fin 0) (duration n)"
    by (simp add: example_doc_parsed)
  have h2: "measures (parseMusicXML example_doc) \<noteq> []"
    by (simp add: example_doc_parsed)
  have h3: "num_gt (Fin 5) (mt_end (last (measures (parseMusicXML example_doc))))"
    by (simp add: example_doc_parsed num_gt_def)
  from active_notes_closed_interval [of "parseMusicXML example_doc" "Fin 1" example_doc]
  have a: "getActiveNotesAtTime (Some (parseMusicXML example_doc)) (Fin 1) =
     filter (\<lambda>n. num_le (start n) (Fin 1) \<and> num_le (Fin 1) (end' n))
       (notes' (parseMusicXML example_doc))" by simp
  then have l: "length (getActiveNotesAtTime (Some (parseMusicXML example_doc)) (Fin 1)) = 2"
    by (simp add: example_doc_parsed)
  from active_notes_closed_interval [of "parseMusicXML example_doc" "Fin 5" example_doc] h1 h2 h3
  have b: "getActiveNotesAtTime (Some (parseMusicXML example_doc)) (Fin 5) = []" by blast
  from a l h2 h3 b show ?thesis by blast
qed

text \<open>
  Without the condition on the durations the second part of C4 fails: a note entry with a
  negative duration value moves the clock back, so the final measure ends before a note does.
\<close>

theorem active_after_final_measure_counterexample:
  "measures (parseMusicXML negative_doc) \<noteq> [] \<and>
   num_gt (Fin (1 / 2)) (mt_end (last (measures (parseMusicXML negative_doc)))) \<and>
   getActiveNotesAtTime (Some (parseMusicXML negative_doc)) (Fin (1 / 2)) \<noteq> []"
  by (simp add: negative_doc_parsed num_gt_def getActiveNotesAtTime_def num_ge_def)


lemma parseInt10_empty: "parseInt10 [] = NaN"
  by (simp add: parseInt10_def)

lemma parse_notes_source:
  "n \<in> set (fst (parse_notes tmp dv mn idx els ([], now))) \<Longrightarrow>
     \<exists>el\<in>set els. \<not> has_rest el \<and>
        (\<exists>dt. duration_text el = Some dt \<and> duration n = durationInSeconds tmp dv dt)"
proof (induction els arbitrary: idx now)
  case Nil
  then show ?case by simp
next
  case (Cons el els)
  show ?case
  proof (cases "parse_note tmp dv mn idx now el")
    case None
    with Cons.prems have "n \<in> set (fst (parse_notes tmp dv mn (Suc idx) els ([], now)))"
      by simp
    from Cons.IH [OF this] show ?thesis by auto
  next
    case (Some m)
    let ?rest = "parse_notes tmp dv mn (Suc idx) els ([], num_add now (duration m))"
    from Some have eq: "parse_notes tmp dv mn idx (el # els) ([], now) = (m # fst ?rest, snd ?rest)"
      by (simp add: parse_notes_Cons_fresh del: parse_notes.simps)
    from Cons.prems [unfolded eq] consider "n = m" | "n \<in> set (fst ?rest)" by auto
    then show ?thesis
    proof cases
      case 1
      with parse_note_fields(3,5) [OF Some] show ?thesis by auto
    next
      case 2
      from Cons.IH [OF this] show ?thesis by auto
    qed
  qed
qed

lemma runs_source:
  "n \<in> set (concat (map fst (measure_runs tmp mels now))) \<Longrightarrow>
     \<exists>mel\<in>set mels. \<exists>el\<in>set (note_els mel). \<exists>dt.
        duration_text el = Some dt \<and> duration n = durationInSeconds tmp (read_divisions mel) dt"
proof (induction mels arbitrary: now)
  case Nil
  then show ?case by simp
next
  case (Cons mel mels)
  let ?mn = "parseInt10 (opt_or (number_attr mel) ''1'')"
  let ?p = "parse_notes tmp (read_divisions mel) ?mn 0 (note_els mel) ([], now)"
  let ?R = "measure_runs tmp mels (snd ?p)"
  have eq: "measure_runs tmp (mel # mels) now =
      (fst ?p, \<lparr>mt_measure = ?mn, mt_start = now, mt_end = snd ?p\<rparr>) # ?R"
    by (rule measure_runs_Cons)
  from Cons.prems [unfolded eq] consider "n \<in> set (fst ?p)" | "n \<in> set (concat (map fst ?R))"
    by auto
  then show ?case
  proof cases
    case 1
    from parse_notes_source [OF this] show ?thesis by auto
  next
    case 2
    from Cons.IH [OF this] show ?thesis by auto
  qed
qed

text \<open>
  C7 (amended). The tempo is read once, from the tempo declaration. It is 74 when the
  declaration is absent or its value is empty, and it is the integer the value starts with
  when there is one. Every note duration of the score is converted with this one tempo.
\<close>

theorem tempo_default_and_use:
  "(tempo_attr doc = None \<or> tempo_attr doc = Some [] \<longrightarrow> tempo (parseMusicXML doc) = Fin 74) \<and>
   (\<forall>a k. tempo_attr doc = Some a \<and> parseInt10 a = Fin k \<longrightarrow> tempo (parseMusicXML doc) = Fin k) \<and>
   (\<forall>n\<in>set (notes' (parseMusicXML doc)).
      \<exists>mel\<in>set (measure_els doc). \<exists>el\<in>set (note_els mel). \<exists>dt.
         duration_text el = Some dt \<and>
         duration n = num_mul (num_div (parseInt10 dt) (read_divisions mel))
                              (num_div (Fin 60) (tempo (parseMusicXML doc))))"
proof -
  have seventy_four: "parseInt10 ''74'' = Fin 74"
    by (simp add: parseInt10_def is_space_def is_digit_def digits_val_def digit_val_def)
  have a: "tempo_attr doc = None \<or> tempo_attr doc = Some [] \<longrightarrow> tempo (parseMusicXML doc) = Fin 74"
    by (auto simp: parsed_by_runs read_tempo_def str_or_def seventy_four)
  have b: "tempo (parseMusicXML doc) = Fin k" if "tempo_attr doc = Some a" "parseInt10 a = Fin k" for a k
  proof -
    from that(2) have "a \<noteq> []" using parseInt10_empty by auto
    with that show ?thesis by (simp add: parsed_by_runs read_tempo_def str_or_def)
  qed
  have c: "\<exists>mel\<in>set (measure_els doc). \<exists>el\<in>set (note_els mel). \<exists>dt.
         duration_text el = Some dt \<and>
         duration n = num_mul (num_div (parseInt10 dt) (read_divisions mel))
                              (num_div (Fin 60) (tempo (parseMusicXML doc)))"
    if "n \<in> set (notes' (parseMusicXML doc))" for n
  proof -
    from that have "n \<in> set (concat (map fst (measure_runs (read_tempo doc) (measure_els doc) (Fin 0))))"
      by (simp only: parsed_by_runs)
    from runs_source [OF this] show ?thesis
      by (simp add: parsed_by_runs durationInSeconds_def Let_def)
  qed
  from a b c show ?thesis by blast
qed

theorem tempo_default_and_use_witness:
  "tempo_attr example_doc = Some ''60'' \<and> parseInt10 ''60'' = Fin 60 \<and>
   tempo (parseMusicXML example_doc) = Fin 60 \<and>
   tempo_attr (example_doc\<lparr>tempo_attr := None\<rparr>) = None \<and>
   tempo (parseMusicXML (example_doc\<lparr>tempo_attr := None\<rparr>)) = Fin 74"
proof -
  have h1: "tempo_attr example_doc = Some ''60''"
    by (simp add: example_doc_def)
  have h2: "parseInt10 ''60'' = Fin 60"
    by (simp add: parseInt10_def is_space_def is_digit_def digits_val_def digit_val_def)
  have h3: "tempo_attr (example_doc\<lparr>tempo_attr := None\<rparr>) = None"
    by simp
  from tempo_default_and_use [of example_doc] h1 h2
  have a: "tempo (parseMusicXML example_doc) = Fin 60" by blast
  from tempo_default_and_use [of "example_doc\<lparr>tempo_attr := None\<rparr>"] h3
  have b: "tempo (parseMusicXML (example_doc\<lparr>tempo_attr := None\<rparr>)) = Fin 74" by blast
  from h1 h2 h3 a b show ?thesis by blast
qed

text \<open>
  A tempo value with no leading integer is not replaced by 74: the default is applied to the
  text before it is parsed, not to the number that comes out.
\<close>

theorem malformed_tempo_counterexample:
  "tempo_attr fast_doc = Some ''fast'' \<and> parseInt10 ''fast'' = NaN \<and>
   tempo (parseMusicXML fast_doc) \<noteq> Fin 74"
  by (simp add: fast_doc_parsed) (simp add: fast_doc_def parser_eval)

lemma find_none: "(\<forall>x\<in>set xs. \<not> P x) \<Longrightarrow> find P xs = None"
  by (simp add: find_None_iff)

lemma find_first: "i < length xs \<Longrightarrow> P (xs ! i) \<Longrightarrow> (\<forall>j<i. \<not> P (xs ! j)) \<Longrightarrow> find P xs = Some (xs ! i)"
  by (auto simp: find_Some_iff)

text \<open>
  The lookup by time in general: the first measure with \<open>start \<le> t \<le> end\<close> gives its number
  when that number is truthy; 1 is returned when no measure matches or no score is loaded.
\<close>

lemma current_measure_lookup:
  "getCurrentMeasureAtTime (Some md) t =
     (case find (\<lambda>m. num_le (mt_start m) t \<and> num_le t (mt_end m)) (measures md) of
        None \<Rightarrow> Fin 1
      | Some m \<Rightarrow> if mt_measure m = Fin 0 \<or> mt_measure m = NaN then Fin 1 else mt_measure m)"
  "getCurrentMeasureAtTime None t = Fin 1"
  by (auto simp: getCurrentMeasureAtTime_def num_ge_def truthy_def split: option.splits)

lemma example_doc_lookups:
  "getCurrentMeasureAtTime (Some (parseMusicXML example_doc)) (Fin 3) = Fin 1"
  "getCurrentMeasureAtTime (Some (parseMusicXML example_doc)) (Fin (7 / 2)) = Fin 3"
  "getCurrentMeasureAtTime (Some (parseMusicXML example_doc)) (Fin 9) = Fin 1"
  by (simp_all add: current_measure_lookup example_doc_parsed)

text \<open>
  C9. The score \<open>pickup_doc\<close> has one measure, numbered 0, from 0 to 1. At \<open>t = 1/2\<close> that
  measure is the first (and only) one with \<open>start \<le> t \<le> end\<close>, and the lookup returns 1, not
  the measure's number 0: the fallback \<open>currentMeasure?.measure || 1\<close> also replaces a number
  that is falsy.
\<close>

theorem pickup_measure_number:
  "measures (parseMusicXML pickup_doc) = [\<lparr>mt_measure = Fin 0, mt_start = Fin 0, mt_end = Fin 1\<rparr>] \<and>
   find (\<lambda>m. num_ge (Fin (1 / 2)) (mt_start m) \<and> num_le (Fin (1 / 2)) (mt_end m))
     (measures (parseMusicXML pickup_doc)) =
     Some \<lparr>mt_measure = Fin 0, mt_start = Fin 0, mt_end = Fin 1\<rparr> \<and>
   getCurrentMeasureAtTime (Some (parseMusicXML pickup_doc)) (Fin (1 / 2)) = Fin 1 \<and>
   getCurrentMeasureAtTime (Some (parseMusicXML pickup_doc)) (Fin (1 / 2)) \<noteq>
     mt_measure (measures (parseMusicXML pickup_doc) ! 0)"
  by (simp add: pickup_doc_parsed getCurrentMeasureAtTime_def num_ge_def truthy_def)

text \<open>
  A clock that ends finite was finite all along. With durations that are not negative it never
  moves back, and each addition is off by at most \<open>2^-53\<close> of the final value plus
  \<open>2^-1075\<close>.
\<close>

lemma num_add_Fin:
  "num_add x y = Fin r \<Longrightarrow> \<exists>a b. x = Fin a \<and> y = Fin b \<and> fl (a + b) = Fin r"
  by (cases x; cases y) simp_all

lemma foldl_add_Fin:
  "foldl num_add c js = Fin e \<Longrightarrow> \<exists>s ds. c = Fin s \<and> js = map Fin ds"
proof (induction js arbitrary: c)
  case Nil
  then show ?case by simp
next
  case (Cons j js)
  then have "foldl num_add (num_add c j) js = Fin e" by simp
  from Cons.IH [OF this] obtain s' ds where s': "num_add c j = Fin s'" and ds: "js = map Fin ds"
    by blast
  from num_add_Fin [OF s'] obtain a b where ab: "c = Fin a" "j = Fin b" by blast
  with ds have "c = Fin a \<and> j # js = map Fin (b # ds)" by simp
  then show ?case by (intro exI)
qed

lemma foldl_add_mono:
  assumes "foldl num_add (Fin c) (map Fin ds) = Fin e" and "0 \<le> c" and "fl c = Fin c"
    and "\<forall>d\<in>set ds. 0 \<le> d"
  shows "c \<le> e"
  using assms
proof (induction ds arbitrary: c)
  case Nil
  then show ?case by simp
next
  case (Cons d ds)
  from Cons.prems(1) have f: "foldl num_add (fl (c + d)) (map Fin ds) = Fin e" by simp
  from foldl_add_Fin [OF f] obtain c' where c': "fl (c + d) = Fin c'" by blast
  from Cons.prems(2,4) have cd: "0 \<le> c + d" "c \<le> c + d" by simp_all
  from fl_rel_err(2) [OF cd(1) c'] have c0: "0 \<le> c'" .
  from fl_mono_nonneg [OF Cons.prems(2) cd(2)] Cons.prems(3) c' have le: "c \<le> c'" by simp
  from f c' have "foldl num_add (Fin c') (map Fin ds) = Fin e" by simp
  from Cons.IH [OF this c0 fl_idem [OF c']] Cons.prems(4) have "c' \<le> e" by simp
  with le show ?case by simp
qed

lemma foldl_add_err:
  assumes "foldl num_add (Fin c) (map Fin ds) = Fin e" and "0 \<le> c" and "\<forall>d\<in>set ds. 0 \<le> d"
  shows "\<bar>e - c - sum_list ds\<bar> \<le> real (length ds) * (e / 2 ^ 53 + 1 / 2 ^ 1075)"
  using assms
proof (induction ds arbitrary: c)
  case Nil
  then show ?case by simp
next
  case (Cons d ds)
  define u where "u = e / 2 ^ 53 + 1 / 2 ^ 1075"
  from Cons.prems(1) have f: "foldl num_add (fl (c + d)) (map Fin ds) = Fin e" by simp
  from foldl_add_Fin [OF f] obtain c' where c': "fl (c + d) = Fin c'" by blast
  from Cons.prems(2,3) have cd: "0 \<le> c + d" by simp
  from fl_rel_err [OF cd c'] have err: "\<bar>c' - (c + d)\<bar> \<le> c' / 2 ^ 53 + 1 / 2 ^ 1075"
    and c0: "0 \<le> c'" by simp_all
  from f c' have f': "foldl num_add (Fin c') (map Fin ds) = Fin e" by simp
  from Cons.prems(3) have ds: "\<forall>d\<in>set ds. 0 \<le> d" by simp
  from foldl_add_mono [OF f' c0 fl_idem [OF c'] ds] have le: "c' \<le> e" .
  then have "c' / 2 ^ 53 \<le> e / 2 ^ 53" by (simp add: divide_right_mono)
  with err have err': "\<bar>c' - (c + d)\<bar> \<le> u" by (simp add: u_def)
  from Cons.IH [OF f' c0 ds] have ih: "\<bar>e - c' - sum_list ds\<bar> \<le> real (length ds) * u"
    by (simp only: u_def)
  have "e - c - sum_list (d # ds) = (e - c' - sum_list ds) + (c' - (c + d))" by simp
  then have "\<bar>e - c - sum_list (d # ds)\<bar> \<le> \<bar>e - c' - sum_list ds\<bar> + \<bar>c' - (c + d)\<bar>"
    by (simp only: abs_triangle_ineq)
  also from ih err' have "\<dots> \<le> real (length ds) * u + u" by (rule add_mono)
  also have "\<dots> = real (length (d # ds)) * u" by (simp add: algebra_simps)
  finally show ?case by (simp only: u_def)
qed

lemma run_notes_subset:
  "i < length R \<Longrightarrow> n \<in> set (fst (R ! i)) \<Longrightarrow> n \<in> set (concat (map fst R))"
  by (auto intro: nth_mem)

lemma runs_nth:
  "i < length mels \<Longrightarrow>
     \<exists>now_i. measure_runs tmp mels now ! i =
       (fst (parse_notes tmp (read_divisions (mels ! i))
               (parseInt10 (opt_or (number_attr (mels ! i)) ''1'')) 0 (note_els (mels ! i))
               ([], now_i)),
        \<lparr>mt_measure = parseInt10 (opt_or (number_attr (mels ! i)) ''1''), mt_start = now_i,
          mt_end = snd (parse_notes tmp (read_divisions (mels ! i))
                          (parseInt10 (opt_or (number_attr (mels ! i)) ''1'')) 0
                          (note_els (mels ! i)) ([], now_i))\<rparr>)"
proof (induction mels arbitrary: now i)
  case Nil
  then show ?case by simp
next
  case (Cons mel mels)
  show ?case
  proof (cases i)
    case 0
    then show ?thesis
      by (simp add: measure_runs_Cons del: measure_runs.simps)
  next
    case (Suc k)
    with Cons.prems have "k < length mels" by simp
    from Cons.IH [OF this] Suc show ?thesis
      by (simp add: measure_runs_Cons del: measure_runs.simps)
  qed
qed

text \<open>
  C10 (amended). Rest entries add no note and leave the clock alone, and every emitted note
  comes from an entry that is not a rest. For every parsed measure, the end is the value the
  clock has after the durations of the notes emitted for it have been added to the start, one
  after the other in score order, each addition rounded to a double. \<open>end - start\<close> need
  not be the sum of those durations; when start and end are finite, the start is not negative
  and none of the \<open>n\<close> notes of the measure has a negative duration, the two differ by at
  most \<open>n * (end / 2^53 + 2^-1075)\<close>. A measure whose note entries are all rests emits no
  note and ends with the clock value it started with: \<open>start == end\<close> holds unless that
  value is NaN, and \<open>end - start\<close> is 0 when it is finite.
\<close>

theorem measure_span_is_sum:
  assumes "i < length (measure_els doc)"
  shows
    "measures (parseMusicXML doc) ! i =
       snd (measure_runs (read_tempo doc) (measure_els doc) (Fin 0) ! i) \<and>
     notes' (parseMusicXML doc) =
       concat (map fst (measure_runs (read_tempo doc) (measure_els doc) (Fin 0))) \<and>
     (\<forall>n\<in>set (fst (measure_runs (read_tempo doc) (measure_els doc) (Fin 0) ! i)).
        \<exists>el\<in>set (note_els (measure_els doc ! i)). \<not> has_rest el \<and>
           (\<exists>dt. duration_text el = Some dt \<and>
              duration n = durationInSeconds (read_tempo doc) (read_divisions (measure_els doc ! i)) dt)) \<and>
     mt_end (measures (parseMusicXML doc) ! i) =
       foldl num_add (mt_start (measures (parseMusicXML doc) ! i))
         (map duration (fst (measure_runs (read_tempo doc) (measure_els doc) (Fin 0) ! i))) \<and>
     strict_eq (mt_end (measures (parseMusicXML doc) ! i))
       (foldl num_add (mt_start (measures (parseMusicXML doc) ! i))
         (map duration (fst (measure_runs (read_tempo doc) (measure_els doc) (Fin 0) ! i)))) =
       (mt_end (measures (parseMusicXML doc) ! i) \<noteq> NaN) \<and>
     (\<forall>s e. mt_start (measures (parseMusicXML doc) ! i) = Fin s \<and> 0 \<le> s \<and>
            mt_end (measures (parseMusicXML doc) ! i) = Fin e \<and>
            (\<forall>n\<in>set (fst (measure_runs (read_tempo doc) (measure_els doc) (Fin 0) ! i)).
               num_le (Fin 0) (duration n)) \<longrightarrow>
        (\<exists>ds. map duration (fst (measure_runs (read_tempo doc) (measure_els doc) (Fin 0) ! i)) =
                 map Fin ds \<and>
              \<bar>e - s - sum_list ds\<bar> \<le> real (length ds) * (e / 2 ^ 53 + 1 / 2 ^ 1075))) \<and>
     ((\<forall>el\<in>set (note_els (measure_els doc ! i)). has_rest el) \<longrightarrow>
        fst (measure_runs (read_tempo doc) (measure_els doc) (Fin 0) ! i) = [] \<and>
        mt_end (measures (parseMusicXML doc) ! i) = mt_start (measures (parseMusicXML doc) ! i) \<and>
        strict_eq (mt_start (measures (parseMusicXML doc) ! i))
                  (mt_end (measures (parseMusicXML doc) ! i)) =
          (mt_start (measures (parseMusicXML doc) ! i) \<noteq> NaN) \<and>
        (\<forall>c. mt_start (measures (parseMusicXML doc) ! i) = Fin c \<longrightarrow>
           num_sub (mt_end (measures (parseMusicXML doc) ! i))
                   (mt_start (measures (parseMusicXML doc) ! i)) = Fin 0))"
proof -
  let ?tmp = "read_tempo doc"
  let ?R = "measure_runs ?tmp (measure_els doc) (Fin 0)"
  let ?mel = "measure_els doc ! i"
  let ?mn = "parseInt10 (opt_or (number_attr ?mel) ''1'')"
  from assms have len: "i < length ?R" by (simp add: runs_length)
  then have m: "measures (parseMusicXML doc) ! i = snd (?R ! i)"
    by (simp add: parsed_by_runs)
  from runs_nth [OF assms, of ?tmp "Fin 0"] obtain now_i where
    r: "?R ! i =
       (fst (parse_notes ?tmp (read_divisions ?mel) ?mn 0 (note_els ?mel) ([], now_i)),
        \<lparr>mt_measure = ?mn, mt_start = now_i,
          mt_end = snd (parse_notes ?tmp (read_divisions ?mel) ?mn 0 (note_els ?mel) ([], now_i))\<rparr>)"
    by blast
  let ?p = "parse_notes ?tmp (read_divisions ?mel) ?mn 0 (note_els ?mel) ([], now_i)"
  have src: "\<forall>n\<in>set (fst (?R ! i)).
        \<exists>el\<in>set (note_els ?mel). \<not> has_rest el \<and>
           (\<exists>dt. duration_text el = Some dt \<and>
              duration n = durationInSeconds ?tmp (read_divisions ?mel) dt)"
    using parse_notes_source [of _ ?tmp "read_divisions ?mel" ?mn 0 "note_els ?mel" now_i]
    by (simp add: r)
  have clock: "mt_end (measures (parseMusicXML doc) ! i) =
       foldl num_add (mt_start (measures (parseMusicXML doc) ! i)) (map duration (fst (?R ! i)))"
    using parse_notes_clock [of ?tmp "read_divisions ?mel" ?mn 0 "note_els ?mel" "[]" now_i]
    by (simp add: m r)
  then have clock': "strict_eq (mt_end (measures (parseMusicXML doc) ! i))
       (foldl num_add (mt_start (measures (parseMusicXML doc) ! i)) (map duration (fst (?R ! i)))) =
       (mt_end (measures (parseMusicXML doc) ! i) \<noteq> NaN)"
    by (simp add: strict_eq_def)
  have bound: "\<exists>ds. map duration (fst (?R ! i)) = map Fin ds \<and>
        \<bar>e - s - sum_list ds\<bar> \<le> real (length ds) * (e / 2 ^ 53 + 1 / 2 ^ 1075)"
    if h: "mt_start (measures (parseMusicXML doc) ! i) = Fin s \<and> 0 \<le> s \<and>
        mt_end (measures (parseMusicXML doc) ! i) = Fin e \<and>
        (\<forall>n\<in>set (fst (?R ! i)). num_le (Fin 0) (duration n))" for s e
  proof -
    from clock h have f: "foldl num_add (Fin s) (map duration (fst (?R ! i))) = Fin e"
      by simp
    from foldl_add_Fin [OF f] obtain ds where ds: "map duration (fst (?R ! i)) = map Fin ds"
      by blast
    from h have "\<forall>j\<in>set (map duration (fst (?R ! i))). num_le (Fin 0) j" by simp
    then have nn: "\<forall>d\<in>set ds. 0 \<le> d" unfolding ds by simp
    from f have "foldl num_add (Fin s) (map Fin ds) = Fin e" unfolding ds .
    from foldl_add_err [OF this _ nn] h ds show ?thesis by blast
  qed
  have rests: "fst (?R ! i) = [] \<and>
        mt_end (measures (parseMusicXML doc) ! i) = mt_start (measures (parseMusicXML doc) ! i) \<and>
        strict_eq (mt_start (measures (parseMusicXML doc) ! i))
                  (mt_end (measures (parseMusicXML doc) ! i)) =
          (mt_start (measures (parseMusicXML doc) ! i) \<noteq> NaN) \<and>
        (\<forall>c. mt_start (measures (parseMusicXML doc) ! i) = Fin c \<longrightarrow>
           num_sub (mt_end (measures (parseMusicXML doc) ! i))
                   (mt_start (measures (parseMusicXML doc) ! i)) = Fin 0)"
    if "\<forall>el\<in>set (note_els ?mel). has_rest el"
  proof -
    from parse_notes_all_rests [OF that, of ?tmp "read_divisions ?mel" ?mn 0 "([], now_i)"]
    have p: "?p = ([], now_i)" .
    have "num_sub (Fin c) (Fin c) = Fin 0" for c by (simp add: num_sub_def)
    with p show ?thesis by (auto simp: m r strict_eq_def)
  qed
  have ns: "notes' (parseMusicXML doc) = concat (map fst ?R)"
    by (simp only: parsed_by_runs)
  from m ns src clock clock' bound rests show ?thesis by blast
qed

theorem measure_span_is_sum_witness:
  "(0::nat) < length (measure_els example_doc) \<and>
   mt_end (measures (parseMusicXML example_doc) ! 0) = Fin 3 \<and>
   strict_eq (mt_end (measures (parseMusicXML example_doc) ! 0))
     (foldl num_add (mt_start (measures (parseMusicXML example_doc) ! 0))
        (map duration (fst (measure_runs (read_tempo example_doc) (measure_els example_doc) (Fin 0) ! 0)))) \<and>
   (\<exists>ds. map duration (fst (measure_runs (read_tempo example_doc) (measure_els example_doc) (Fin 0) ! 0)) =
            map Fin ds \<and>
         \<bar>3 - 0 - sum_list ds\<bar> \<le> real (length ds) * (3 / 2 ^ 53 + 1 / 2 ^ 1075)) \<and>
   list_all has_rest (note_els (measure_els example_doc ! 1)) \<and>
   fst (measure_runs (read_tempo example_doc) (measure_els example_doc) (Fin 0) ! 1) = [] \<and>
   mt_start (measures (parseMusicXML example_doc) ! 1) = Fin 3 \<and>
   strict_eq (mt_start (measures (parseMusicXML example_doc) ! 1))
             (mt_end (measures (parseMusicXML example_doc) ! 1)) \<and>
   num_sub (mt_end (measures (parseMusicXML example_doc) ! 1))
           (mt_start (measures (parseMusicXML example_doc) ! 1)) = Fin 0"
proof -
  let ?ms = "measures (parseMusicXML example_doc)"
  let ?R = "measure_runs (read_tempo example_doc) (measure_els example_doc) (Fin 0)"
  have h0: "(0::nat) < length (measure_els example_doc)"
    and h1: "(1::nat) < length (measure_els example_doc)"
    by (simp_all add: example_doc_def)
  have e: "mt_end (?ms ! 0) = Fin 3" and s1: "mt_start (?ms ! 1) = Fin 3"
    by (simp_all add: example_doc_parsed)
  have r: "\<forall>el\<in>set (note_els (measure_els example_doc ! 1)). has_rest el"
    by (simp add: example_doc_def rest_el_def)
  from measure_span_is_sum [OF h0]
  have "strict_eq (mt_end (?ms ! 0))
     (foldl num_add (mt_start (?ms ! 0)) (map duration (fst (?R ! 0)))) =
     (mt_end (?ms ! 0) \<noteq> NaN)" by blast
  moreover from e have "mt_end (?ms ! 0) \<noteq> NaN" by simp
  ultimately have a: "strict_eq (mt_end (?ms ! 0))
     (foldl num_add (mt_start (?ms ! 0)) (map duration (fst (?R ! 0))))" by blast
  have s0: "mt_start (?ms ! 0) = Fin 0"
    by (simp add: example_doc_parsed)
  have "0 < length ?R" by (simp only: runs_length h0)
  then have "n \<in> set (notes' (parseMusicXML example_doc))" if "n \<in> set (fst (?R ! 0))" for n
    using that by (simp only: parsed_by_runs run_notes_subset)
  moreover have "\<forall>n\<in>set (notes' (parseMusicXML example_doc)). num_le (Fin 0) (duration n)"
    by (simp add: example_doc_parsed)
  ultimately have d0: "\<forall>n\<in>set (fst (?R ! 0)). num_le (Fin 0) (duration n)" by blast
  from measure_span_is_sum [OF h0]
  have "\<forall>s e. mt_start (?ms ! 0) = Fin s \<and> 0 \<le> s \<and> mt_end (?ms ! 0) = Fin e \<and>
            (\<forall>n\<in>set (fst (?R ! 0)). num_le (Fin 0) (duration n)) \<longrightarrow>
        (\<exists>ds. map duration (fst (?R ! 0)) = map Fin ds \<and>
              \<bar>e - s - sum_list ds\<bar> \<le> real (length ds) * (e / 2 ^ 53 + 1 / 2 ^ 1075))"
    by blast
  then have "mt_start (?ms ! 0) = Fin 0 \<and> (0 :: real) \<le> 0 \<and> mt_end (?ms ! 0) = Fin 3 \<and>
            (\<forall>n\<in>set (fst (?R ! 0)). num_le (Fin 0) (duration n)) \<longrightarrow>
        (\<exists>ds. map duration (fst (?R ! 0)) = map Fin ds \<and>
              \<bar>3 - 0 - sum_list ds\<bar> \<le> real (length ds) * (3 / 2 ^ 53 + 1 / 2 ^ 1075))"
    by blast
  with s0 e d0 have c: "\<exists>ds. map duration (fst (?R ! 0)) = map Fin ds \<and>
              \<bar>3 - 0 - sum_list ds\<bar> \<le> real (length ds) * (3 / 2 ^ 53 + 1 / 2 ^ 1075)"
    by blast
  from measure_span_is_sum [OF h1] r
  have b: "fst (?R ! 1) = [] \<and>
        strict_eq (mt_start (?ms ! 1)) (mt_end (?ms ! 1)) = (mt_start (?ms ! 1) \<noteq> NaN) \<and>
        (\<forall>c. mt_start (?ms ! 1) = Fin c \<longrightarrow> num_sub (mt_end (?ms ! 1)) (mt_start (?ms ! 1)) = Fin 0)"
    by blast
  with s1 have b': "fst (?R ! 1) = []" "strict_eq (mt_start (?ms ! 1)) (mt_end (?ms ! 1))"
    "num_sub (mt_end (?ms ! 1)) (mt_start (?ms ! 1)) = Fin 0" by simp_all
  from r have "list_all has_rest (note_els (measure_els example_doc ! 1))"
    by (simp add: list_all_iff)
  with h0 e s1 a c b' show ?thesis by blast
qed

text \<open>
  The doubles of the score \<open>tenth_doc\<close>: a tenth of a second is the double
  \<open>3602879701896397 / 2^55\<close>, two of them add up to \<open>3602879701896397 / 2^54\<close> without
  rounding, and a third one added to that gives \<open>10808639105689191 / 2^55\<close>, which lies
  halfway between two doubles and is rounded up to the even one, \<open>1351079888211149 / 2^52\<close>.
\<close>

lemma fl_tenth: "fl (1 / 10) = Fin (3602879701896397 / 36028797018963968)"
proof -
  have "fl (1 / 10) = Fin (of_int 7205759403792794 * p2 (- 4 - 52))"
    by (rule fl_at) (simp_all add: p2_def power_int_minus_divide rhe_def)
  then show ?thesis by (simp add: p2_def power_int_minus_divide)
qed

lemma fl_tenth_idem:
  "fl (3602879701896397 / 36028797018963968) = Fin (3602879701896397 / 36028797018963968)"
  using fl_tenth by (rule fl_idem)

lemma fl_two_tenths:
  "fl (3602879701896397 / 18014398509481984) = Fin (3602879701896397 / 18014398509481984)"
proof -
  have "fl (3602879701896397 / 18014398509481984) = Fin (of_int 7205759403792794 * p2 (- 3 - 52))"
    by (rule fl_at) (simp_all add: p2_def power_int_minus_divide rhe_def)
  then show ?thesis by (simp add: p2_def power_int_minus_divide)
qed

lemma fl_three_tenths:
  "fl (10808639105689191 / 36028797018963968) = Fin (1351079888211149 / 4503599627370496)"
proof -
  have "fl (10808639105689191 / 36028797018963968) = Fin (of_int 5404319552844596 * p2 (- 2 - 52))"
    by (rule fl_at) (simp_all add: p2_def power_int_minus_divide rhe_def)
  then show ?thesis by (simp add: p2_def power_int_minus_divide)
qed

lemma fl_tenth_span:
  "fl (1801439850948199 / 18014398509481984) = Fin (1801439850948199 / 18014398509481984)"
proof -
  have "fl (1801439850948199 / 18014398509481984) = Fin (of_int 7205759403792796 * p2 (- 4 - 52))"
    by (rule fl_at) (simp_all add: p2_def power_int_minus_divide rhe_def)
  then show ?thesis by (simp add: p2_def power_int_minus_divide)
qed

lemmas tenth_eval = fl_tenth fl_tenth_idem fl_two_tenths fl_three_tenths fl_tenth_span

lemma tenth_doc_parsed:
  "parseMusicXML tenth_doc =
     \<lparr>notes' =
        [\<lparr>id' = ''note-1-0'', pitch = Fin 60, start = Fin 0,
          end' = Fin (3602879701896397 / 36028797018963968),
          duration = Fin (3602879701896397 / 36028797018963968),
          measure = Fin 1, hand = Right, finger = None\<rparr>,
         \<lparr>id' = ''note-1-1'', pitch = Fin 62,
          start = Fin (3602879701896397 / 36028797018963968),
          end' = Fin (3602879701896397 / 18014398509481984),
          duration = Fin (3602879701896397 / 36028797018963968),
          measure = Fin 1, hand = Right, finger = None\<rparr>,
         \<lparr>id' = ''note-2-0'', pitch = Fin 64,
          start = Fin (3602879701896397 / 18014398509481984),
          end' = Fin (1351079888211149 / 4503599627370496),
          duration = Fin (3602879701896397 / 36028797018963968),
          measure = Fin 2, hand = Right, finger = None\<rparr>],
      measures =
        [\<lparr>mt_measure = Fin 1, mt_start = Fin 0,
          mt_end = Fin (3602879701896397 / 18014398509481984)\<rparr>,
         \<lparr>mt_measure = Fin 2,
          mt_start = Fin (3602879701896397 / 18014398509481984),
          mt_end = Fin (1351079888211149 / 4503599627370496)\<rparr>],
      title = ''Untitled'', composer = ''Unknown'', tempo = Fin 60\<rparr>"
  by (simp add: tenth_doc_def parser_eval tenth_eval)

lemma tenth_doc_runs:
  "map (map duration \<circ> fst)
     (measure_runs (read_tempo tenth_doc) (measure_els tenth_doc) (Fin 0)) =
   [[Fin (3602879701896397 / 36028797018963968), Fin (3602879701896397 / 36028797018963968)],
    [Fin (3602879701896397 / 36028797018963968)]]"
  by (simp add: tenth_doc_def measure_runs_Cons parser_eval tenth_eval del: measure_runs.simps(2))

text \<open>
  In \<open>tenth_doc\<close> (60 beats per minute, ten divisions to the quarter) the second measure holds
  one note of a tenth of a second, the double \<open>0.1\<close>. The measure starts at the double
  \<open>0.2\<close> and ends at \<open>0.30000000000000004\<close>, so \<open>end - start\<close> is
  \<open>0.10000000000000003\<close> and not the duration of its note. In \<open>fast_doc\<close>, whose tempo is not
  a number, the second measure has only a rest and starts and ends at NaN: \<open>start == end\<close> is
  false and \<open>end - start\<close> is NaN.
\<close>

theorem tenth_span_counterexample:
  "mt_start (measures (parseMusicXML tenth_doc) ! 1) = Fin (3602879701896397 / 18014398509481984) \<and>
   mt_end (measures (parseMusicXML tenth_doc) ! 1) = Fin (1351079888211149 / 4503599627370496) \<and>
   map duration (fst (measure_runs (read_tempo tenth_doc) (measure_els tenth_doc) (Fin 0) ! 1)) =
     [Fin (3602879701896397 / 36028797018963968)] \<and>
   num_sub (mt_end (measures (parseMusicXML tenth_doc) ! 1))
           (mt_start (measures (parseMusicXML tenth_doc) ! 1)) =
     Fin (1801439850948199 / 18014398509481984) \<and>
   \<not> strict_eq (num_sub (mt_end (measures (parseMusicXML tenth_doc) ! 1))
                        (mt_start (measures (parseMusicXML tenth_doc) ! 1)))
                (Fin (3602879701896397 / 36028797018963968)) \<and>
   list_all has_rest (note_els (measure_els fast_doc ! 1)) \<and>
   mt_start (measures (parseMusicXML fast_doc) ! 1) = NaN \<and>
   mt_end (measures (parseMusicXML fast_doc) ! 1) = NaN \<and>
   \<not> strict_eq (mt_start (measures (parseMusicXML fast_doc) ! 1))
                (mt_end (measures (parseMusicXML fast_doc) ! 1)) \<and>
   num_sub (mt_end (measures (parseMusicXML fast_doc) ! 1))
           (mt_start (measures (parseMusicXML fast_doc) ! 1)) = NaN"
proof -
  have "map (map duration \<circ> fst)
     (measure_runs (read_tempo tenth_doc) (measure_els tenth_doc) (Fin 0)) ! 1 =
     [Fin (3602879701896397 / 36028797018963968)]"
    by (simp add: tenth_doc_runs)
  moreover have "1 < length (measure_runs (read_tempo tenth_doc) (measure_els tenth_doc) (Fin 0))"
    by (simp only: runs_length) (simp add: tenth_doc_def)
  ultimately have d: "map duration (fst (measure_runs (read_tempo tenth_doc)
      (measure_els tenth_doc) (Fin 0) ! 1)) = [Fin (3602879701896397 / 36028797018963968)]"
    by (simp del: measure_runs.simps)
  have t: "num_sub (Fin (1351079888211149 / 4503599627370496))
                   (Fin (3602879701896397 / 18014398509481984)) =
             Fin (1801439850948199 / 18014398509481984)"
    by (simp add: num_sub_def fl_tenth_span)
  have r: "list_all has_rest (note_els (measure_els fast_doc ! 1))"
    by (simp add: fast_doc_def rest_el_def)
  from d t r show ?thesis
    by (simp add: tenth_doc_parsed fast_doc_parsed strict_eq_def num_sub_def)
qed

section \<open>Evaluations of the timing offset and of the metronome tick\<close>

text \<open>
  C5. A press of the expected pitch while the transport is exactly at the start of the
  expected note is marked correct, and its timing offset is the rounded value of
  \<open>(performance.now() - start) * 1000\<close>. The reading of \<open>performance.now()\<close> is in
  milliseconds since the page was loaded and does not depend on the transport: with a reading
  of 5000 the offset is 5000000, not about 0.
\<close>

theorem press_at_start_offset:
  "currentTime example_options = Some (Fin 0) \<and>
   map start example_expected = [Fin 0] \<and>
   accuracy (handleMIDIMessage example_options 5000 1700 example_press initial_midi_state) =
     [\<lparr>noteId = ''note-1-0'', expectedNote = Fin 60, actualNote = Fin 60,
       timingOffset = Fin 5000000, isCorrect = True\<rparr>]"
  by (simp add: handleMIDIMessage_def is_note_on_def example_press_def
      example_options_def example_expected_def initial_midi_state_def matches_def
      num_sub_def strict_eq_def byte_num_def)

text \<open>
  C6. A tick sets the beat to \<open>(beat + 1) mod 4\<close>: after beat 3 comes beat 0, and the beat is
  never 4. The callback receives the beat that the starting render saw (2 for a metronome
  that was stopped on beat 2), not the beat the tick produced.
\<close>

theorem tick_beat_and_callback:
  "tick True True (metronome_start True stopped_metronome) =
     (metronome_start True stopped_metronome\<lparr>currentBeat := 1\<rparr>, Some 2) \<and>
   currentBeat (fst (tick True True (metronome_start True stopped_metronome\<lparr>currentBeat := 3\<rparr>))) = 0 \<and>
   snd (tick True True (metronome_start True stopped_metronome\<lparr>currentBeat := 3\<rparr>)) = Some 2"
  by (simp add: tick_def metronome_start_def stopped_metronome_def)

lemma tick_beat_range: "currentBeat (fst (tick True cb s)) < 4"
  by (simp add: tick_def)

end
